theory Spec2Isabelle
  imports Main
begin

section \<open>JavaScript strings\<close>

text \<open>
  A JavaScript string is a sequence of UTF-16 code units. A code unit is modelled by its
  numeric value, so \<open>length\<close> counts what \<open>String.prototype.length\<close> counts. String literals
  of the source are written \<open>js ''...''\<close>.
\<close>

type_synonym jsstring = "nat list"

definition js :: "string \<Rightarrow> jsstring" where
  "js s = map of_char s"

text \<open>
  \<open>\s\<close> of a regular expression, and the characters \<open>trim\<close> strips: the WhiteSpace and
  LineTerminator code points of ECMAScript (TAB, LF, VT, FF, CR, SP, NBSP, U+1680,
  U+2000..U+200A, U+2028, U+2029, U+202F, U+205F, U+3000, U+FEFF).
\<close>

definition isSpace :: "nat \<Rightarrow> bool" where
  "isSpace c =
     (c = 9 \<or> c = 10 \<or> c = 11 \<or> c = 12 \<or> c = 13 \<or> c = 32 \<or> c = 160 \<or> c = 5760
      \<or> (8192 \<le> c \<and> c \<le> 8202) \<or> c = 8232 \<or> c = 8233 \<or> c = 8239 \<or> c = 8287
      \<or> c = 12288 \<or> c = 65279)"

text \<open>\<open>\d\<close> is \<open>[0-9]\<close> and \<open>\w\<close> is \<open>[A-Za-z0-9_]\<close>.\<close>

definition isDigit :: "nat \<Rightarrow> bool" where
  "isDigit c = (48 \<le> c \<and> c \<le> 57)"

definition isWord :: "nat \<Rightarrow> bool" where
  "isWord c = ((97 \<le> c \<and> c \<le> 122) \<or> (65 \<le> c \<and> c \<le> 90) \<or> isDigit c \<or> c = 95)"

text \<open>\<open>String.prototype.trim\<close>.\<close>

definition trim :: "jsstring \<Rightarrow> jsstring" where
  "trim s = rev (dropWhile isSpace (rev (dropWhile isSpace s)))"

text \<open>\<open>s.includes(c)\<close> and \<open>s.endsWith(c)\<close> for a one-character string \<open>c\<close>.\<close>

definition includesChar :: "jsstring \<Rightarrow> nat \<Rightarrow> bool" where
  "includesChar s c = (c \<in> set s)"

definition endsWith :: "jsstring \<Rightarrow> nat \<Rightarrow> bool" where
  "endsWith s c = (case rev s of [] \<Rightarrow> False | x # _ \<Rightarrow> x = c)"

text \<open>
  \<open>s.split(c)\<close> for a one-character separator: the pieces between the occurrences of
  \<open>c\<close>, never an empty array.
\<close>

fun splitChar :: "nat \<Rightarrow> jsstring \<Rightarrow> jsstring list" where
  "splitChar c [] = [[]]"
| "splitChar c (x # xs) =
     (if x = c then [] # splitChar c xs
      else (case splitChar c xs of [] \<Rightarrow> [[x]] | p # ps \<Rightarrow> (x # p) # ps))"

text \<open>The code point of \<open>?\<close>.\<close>

definition qmark :: nat where
  "qmark = 63"

section \<open>Regular expressions\<close>

text \<open>
  The regular expressions of the source use character classes, sequences, alternatives,
  greedy repetition, \<open>^\<close> (without the multiline flag: the start of the input) and \<open>\b\<close>.
  No replacement refers to a capture group and no split pattern has one, so groups are
  not recorded.

  A position in the input is a pair of the text before it, reversed, and the text after
  it. \<open>matches r p\<close> lists the positions at which a match of \<open>r\<close> starting at \<open>p\<close> can
  end, in the order in which the backtracking matcher of ECMAScript tries them: the head
  of the list is the match it reports. A greedy repetition tries another round before
  it stops, and rejects a round that consumed nothing.
\<close>

datatype regex =
    Cls "nat \<Rightarrow> bool"
  | Eps
  | Bol
  | WordB
  | Seq regex regex
  | Alt regex regex
  | Star regex

type_synonym pos = "jsstring \<times> jsstring"

function matches :: "regex \<Rightarrow> pos \<Rightarrow> pos list" where
  "matches (Cls p) (l, r) = (case r of [] \<Rightarrow> [] | c # r' \<Rightarrow> if p c then [(c # l, r')] else [])"
| "matches Eps (l, r) = [(l, r)]"
| "matches Bol (l, r) = (if l = [] then [(l, r)] else [])"
| "matches WordB (l, r) =
     (if (case l of [] \<Rightarrow> False | a # _ \<Rightarrow> isWord a) \<noteq> (case r of [] \<Rightarrow> False | b # _ \<Rightarrow> isWord b)
      then [(l, r)] else [])"
| "matches (Seq r1 r2) (l, r) = concat (map (matches r2) (matches r1 (l, r)))"
| "matches (Alt r1 r2) (l, r) = matches r1 (l, r) @ matches r2 (l, r)"
| "matches (Star r1) (l, r) =
     concat (map (\<lambda>q. if length (snd q) < length r then matches (Star r1) q else [])
                 (matches r1 (l, r)))
     @ [(l, r)]"
  by pat_completeness auto
termination
  by (relation "measures [\<lambda>(re, p). size re, \<lambda>(re, p). length (snd p)]") auto

definition Plus :: "regex \<Rightarrow> regex" where
  "Plus r = Seq r (Star r)"

definition Opt :: "regex \<Rightarrow> regex" where
  "Opt r = Alt r Eps"

definition ch :: "nat \<Rightarrow> regex" where
  "ch c = Cls (\<lambda>x. x = c)"

text \<open>
  Under the \<open>i\<close> flag (without \<open>u\<close>) two code units match when their canonical forms,
  the upper-case mappings, agree, and a code unit outside ASCII never canonicalises to an
  ASCII one. Every letter of the patterns is ASCII, so comparing ASCII upper-case forms
  is the whole rule.
\<close>

definition asciiUpper :: "nat \<Rightarrow> nat" where
  "asciiUpper c = (if 97 \<le> c \<and> c \<le> 122 then c - 32 else c)"

definition chi :: "nat \<Rightarrow> regex" where
  "chi c = Cls (\<lambda>x. asciiUpper x = asciiUpper c)"

fun lit :: "jsstring \<Rightarrow> regex" where
  "lit [] = Eps"
| "lit (c # cs) = Seq (ch c) (lit cs)"

fun liti :: "jsstring \<Rightarrow> regex" where
  "liti [] = Eps"
| "liti (c # cs) = Seq (chi c) (liti cs)"

fun seqs :: "regex list \<Rightarrow> regex" where
  "seqs [] = Eps"
| "seqs (r # rs) = Seq r (seqs rs)"

fun alts :: "regex list \<Rightarrow> regex" where
  "alts [] = Cls (\<lambda>x. False)"
| "alts [r] = r"
| "alts (r # rs) = Alt r (alts rs)"

text \<open>
  \<open>RegExpBuiltinExec\<close> from the start of the input: the matcher is tried at each index in
  turn, and the first index with a match wins. The result is the position where the
  match starts and the position where it ends.
\<close>

fun exec :: "regex \<Rightarrow> jsstring \<Rightarrow> jsstring \<Rightarrow> (pos \<times> pos) option" where
  "exec re l [] = (case matches re (l, []) of [] \<Rightarrow> None | e # _ \<Rightarrow> Some ((l, []), e))"
| "exec re l (c # r) =
     (case matches re (l, c # r) of [] \<Rightarrow> exec re (c # l) r | e # _ \<Rightarrow> Some ((l, c # r), e))"

text \<open>\<open>re.test(s)\<close>, \<open>s.match(re)[0]\<close> (\<open>None\<close> for \<open>null\<close>) and \<open>s.search(re)\<close>.\<close>

definition test :: "regex \<Rightarrow> jsstring \<Rightarrow> bool" where
  "test re s = (exec re [] s \<noteq> None)"

definition matched :: "pos \<Rightarrow> pos \<Rightarrow> jsstring" where
  "matched b e = take (length (snd b) - length (snd e)) (snd b)"

definition match0 :: "regex \<Rightarrow> jsstring \<Rightarrow> jsstring option" where
  "match0 re s = (case exec re [] s of None \<Rightarrow> None | Some (b, e) \<Rightarrow> Some (matched b e))"

definition search :: "regex \<Rightarrow> jsstring \<Rightarrow> int" where
  "search re s = (case exec re [] s of None \<Rightarrow> - 1 | Some (b, e) \<Rightarrow> int (length (fst b)))"

text \<open>\<open>s.replace(re, rep)\<close> for a pattern without the \<open>g\<close> flag: the first match only.\<close>

definition replace :: "regex \<Rightarrow> jsstring \<Rightarrow> jsstring \<Rightarrow> jsstring" where
  "replace re rep s =
     (case exec re [] s of None \<Rightarrow> s | Some (b, e) \<Rightarrow> rev (fst b) @ rep @ snd e)"

text \<open>A match ends at or after its start, inside the same input.\<close>

lemma matches_suffix:
  "q \<in> set (matches re p) \<Longrightarrow> \<exists>m. snd p = m @ snd q \<and> fst q = rev m @ fst p"
proof (induction re p arbitrary: q rule: matches.induct)
  case (1 p l r)
  then show ?case by (auto split: list.splits if_splits)
next
  case (5 r1 r2 l r)
  from "5.prems" obtain q1 where q1: "q1 \<in> set (matches r1 (l, r))" and q: "q \<in> set (matches r2 q1)"
    by auto
  from "5.IH"(1)[OF q1] obtain m1 where m1: "r = m1 @ snd q1" "fst q1 = rev m1 @ l"
    by auto
  from "5.IH"(2)[OF q1 q] obtain m2 where m2: "snd q1 = m2 @ snd q" "fst q = rev m2 @ fst q1"
    by auto
  from m1 m2 have "snd (l, r) = (m1 @ m2) @ snd q \<and> fst q = rev (m1 @ m2) @ fst (l, r)"
    by simp
  then show ?case by blast
next
  case (7 r1 l r)
  show ?case
  proof (cases "q = (l, r)")
    case True
    then show ?thesis by simp
  next
    case False
    with "7.prems" obtain q1 where q1: "q1 \<in> set (matches r1 (l, r))"
      and len: "length (snd q1) < length r" and q: "q \<in> set (matches (Star r1) q1)"
      by (auto split: if_splits)
    from "7.IH"(1)[OF q1] obtain m1 where m1: "r = m1 @ snd q1" "fst q1 = rev m1 @ l"
      by auto
    from "7.IH"(2)[OF q1 len q] obtain m2 where m2: "snd q1 = m2 @ snd q" "fst q = rev m2 @ fst q1"
      by auto
    from m1 m2 have "snd (l, r) = (m1 @ m2) @ snd q \<and> fst q = rev (m1 @ m2) @ fst (l, r)"
      by simp
    then show ?thesis by blast
  qed
qed (auto split: if_splits)

lemma matches_length: "q \<in> set (matches re p) \<Longrightarrow> length (snd q) \<le> length (snd p)"
  using matches_suffix[of q re p] by auto

lemma exec_suffix:
  "exec re l r = Some (b, e) \<Longrightarrow>
     \<exists>m1 m2. r = m1 @ m2 @ snd e \<and> b = (rev m1 @ l, m2 @ snd e) \<and> fst e = rev m2 @ fst b"
proof (induction r arbitrary: l)
  case Nil
  then obtain es where "matches re (l, []) = e # es" and b: "b = (l, [])"
    by (auto split: list.splits)
  then have "e \<in> set (matches re (l, []))" by simp
  from matches_suffix[OF this] b show ?case by auto
next
  case (Cons c r)
  show ?case
  proof (cases "matches re (l, c # r)")
    case Nil
    with Cons.prems have "exec re (c # l) r = Some (b, e)" by simp
    from Cons.IH[OF this] obtain m1 m2 where
      "r = m1 @ m2 @ snd e" "b = (rev m1 @ c # l, m2 @ snd e)" "fst e = rev m2 @ fst b"
      by blast
    then have "c # r = (c # m1) @ m2 @ snd e \<and> b = (rev (c # m1) @ l, m2 @ snd e)
        \<and> fst e = rev m2 @ fst b"
      by simp
    then show ?thesis by blast
  next
    case (Cons e' es)
    with Cons.prems have e: "e = e'" and b: "b = (l, c # r)" by auto
    from Cons e have "e \<in> set (matches re (l, c # r))" by simp
    from matches_suffix[OF this] obtain m where "c # r = m @ snd e" "fst e = rev m @ l"
      by auto
    with b have "c # r = [] @ m @ snd e \<and> b = (rev [] @ l, m @ snd e) \<and> fst e = rev m @ fst b"
      by simp
    then show ?thesis by blast
  qed
qed

lemma exec_length:
  "exec re l r = Some (b, e) \<Longrightarrow> length (snd e) \<le> length (snd b) \<and> length (snd b) \<le> length r"
  using exec_suffix[of re l r b e] by auto

text \<open>
  \<open>s.replace(re, rep)\<close> for a pattern with the \<open>g\<close> flag: every match, found from
  \<open>lastIndex\<close> on, is replaced; after an empty match \<open>lastIndex\<close> moves one code unit
  forward. The position \<open>(l, r)\<close> is \<open>lastIndex\<close>: the text before it is already in the
  result.
\<close>

function replaceAll :: "regex \<Rightarrow> jsstring \<Rightarrow> jsstring \<Rightarrow> jsstring \<Rightarrow> jsstring" where
  "replaceAll re rep l r =
     (case exec re l r of
        None \<Rightarrow> r
      | Some (b, e) \<Rightarrow>
          matched (l, r) b @ rep @
          (if length (snd e) < length (snd b) then replaceAll re rep (fst e) (snd e)
           else (case snd e of [] \<Rightarrow> [] | c # r' \<Rightarrow> c # replaceAll re rep (c # fst e) r')))"
  by pat_completeness auto
termination
proof (relation "measure (\<lambda>(re, rep, l, r). length r)", goal_cases)
  case 1
  show ?case by simp
next
  case (2 re rep l r x b e)
  then show ?case using exec_length[of re l r b e] by (cases e) auto
next
  case (3 re rep l r x b e c r')
  then show ?case using exec_length[of re l r b e] by (cases e) auto
qed

declare replaceAll.simps [simp del]

text \<open>
  \<open>s.split(re)\<close> without a limit. The search index \<open>q\<close> is the position \<open>(l, r)\<close> and
  \<open>piece\<close>, reversed, is the substring from the last split point \<open>p\<close> to \<open>q\<close>. The pattern
  is matched at \<open>q\<close> only; a match that ends at \<open>p\<close> is skipped; no match is tried at the
  end of the input. The empty input gives no piece when the pattern matches it and one
  empty piece otherwise.
\<close>

function splitLoop :: "regex \<Rightarrow> jsstring \<Rightarrow> pos \<Rightarrow> jsstring list" where
  "splitLoop re piece (l, []) = [rev piece]"
| "splitLoop re piece (l, c # r) =
     (case matches re (l, c # r) of
        [] \<Rightarrow> splitLoop re (c # piece) (c # l, r)
      | e # _ \<Rightarrow>
          if length (snd e) = length (c # r) \<and> piece = [] then splitLoop re (c # piece) (c # l, r)
          else rev piece # splitLoop re [] e)"
  by pat_completeness auto
termination
proof (relation "measures [\<lambda>(re, piece, p). length (snd p), \<lambda>(re, piece, p). length piece]",
    goal_cases)
  case 1
  show ?case by simp
next
  case (2 re piece l c r)
  show ?case by simp
next
  case (3 re piece l c r e es)
  show ?case by simp
next
  case (4 re piece l c r e es)
  then have "e \<in> set (matches re (l, c # r))" by simp
  from matches_length[OF this] 4 show ?case by auto
qed

definition splitRe :: "regex \<Rightarrow> jsstring \<Rightarrow> jsstring list" where
  "splitRe re s =
     (if s = [] then (if matches re ([], []) = [] then [[]] else [])
      else splitLoop re [] ([], s))"

text \<open>\<open>a[0]\<close>: \<open>None\<close> is \<open>undefined\<close>.\<close>

definition index0 :: "'a list \<Rightarrow> 'a option" where
  "index0 xs = (case xs of [] \<Rightarrow> None | x # _ \<Rightarrow> Some x)"

section \<open>JSON.parse\<close>

text \<open>
  \<open>JSON.parse\<close> is the platform's parser of the JSON grammar (ECMA-404): it returns the
  value of a text that is exactly one JSON value between optional white space, and throws
  a SyntaxError on any other text. The source reads only the property \<open>question\<close> of the
  result, so a number keeps its lexeme. An object keeps its members in the order of the
  text; a later member of the same name overrides an earlier one when a property is read.
\<close>

datatype exn = SyntaxError | TypeError

datatype json =
    JNull
  | JBool bool
  | JNumber jsstring
  | JString jsstring
  | JArray "json list"
  | JObject "(jsstring \<times> json) list"

datatype token = TLBrace | TRBrace | TLBracket | TRBracket | TColon | TComma | TVal json

text \<open>
  The lexer reads one code unit at a time. In a number, the state says which part of
  \<open>-? (0 | [1-9][0-9]*) (. [0-9]+)? ([eE] [+-]? [0-9]+)?\<close> was read last.
\<close>

datatype numstate = NMinus | NZero | NInt | NDot | NFrac | NE | NESign | NExp

datatype lexstate =
    LIdle
  | LStr jsstring
  | LEsc jsstring
  | LUni jsstring "nat list"
  | LNum numstate jsstring
  | LLit jsstring json

definition numAccepting :: "numstate \<Rightarrow> bool" where
  "numAccepting n = (n = NZero \<or> n = NInt \<or> n = NFrac \<or> n = NExp)"

definition numStep :: "numstate \<Rightarrow> nat \<Rightarrow> numstate option" where
  "numStep n c =
     (case n of
        NMinus \<Rightarrow> if c = 48 then Some NZero else if isDigit c then Some NInt else None
      | NZero \<Rightarrow> if c = 46 then Some NDot else if c = 101 \<or> c = 69 then Some NE else None
      | NInt \<Rightarrow> if isDigit c then Some NInt else if c = 46 then Some NDot
                else if c = 101 \<or> c = 69 then Some NE else None
      | NDot \<Rightarrow> if isDigit c then Some NFrac else None
      | NFrac \<Rightarrow> if isDigit c then Some NFrac else if c = 101 \<or> c = 69 then Some NE else None
      | NE \<Rightarrow> if c = 43 \<or> c = 45 then Some NESign else if isDigit c then Some NExp else None
      | NESign \<Rightarrow> if isDigit c then Some NExp else None
      | NExp \<Rightarrow> if isDigit c then Some NExp else None)"

definition hexVal :: "nat \<Rightarrow> nat option" where
  "hexVal c =
     (if isDigit c then Some (c - 48)
      else if 97 \<le> c \<and> c \<le> 102 then Some (c - 87)
      else if 65 \<le> c \<and> c \<le> 70 then Some (c - 55)
      else None)"

definition idleStep :: "nat \<Rightarrow> (lexstate \<times> token list) option" where
  "idleStep c =
     (if c = 32 \<or> c = 9 \<or> c = 10 \<or> c = 13 then Some (LIdle, [])
      else if c = 123 then Some (LIdle, [TLBrace])
      else if c = 125 then Some (LIdle, [TRBrace])
      else if c = 91 then Some (LIdle, [TLBracket])
      else if c = 93 then Some (LIdle, [TRBracket])
      else if c = 58 then Some (LIdle, [TColon])
      else if c = 44 then Some (LIdle, [TComma])
      else if c = 34 then Some (LStr [], [])
      else if c = 45 then Some (LNum NMinus [c], [])
      else if c = 48 then Some (LNum NZero [c], [])
      else if isDigit c then Some (LNum NInt [c], [])
      else if c = 116 then Some (LLit (js ''rue'') (JBool True), [])
      else if c = 102 then Some (LLit (js ''alse'') (JBool False), [])
      else if c = 110 then Some (LLit (js ''ull'') JNull, [])
      else None)"

fun lexStep :: "lexstate \<Rightarrow> nat \<Rightarrow> (lexstate \<times> token list) option" where
  "lexStep LIdle c = idleStep c"
| "lexStep (LStr acc) c =
     (if c = 34 then Some (LIdle, [TVal (JString (rev acc))])
      else if c = 92 then Some (LEsc acc, [])
      else if c < 32 then None
      else Some (LStr (c # acc), []))"
| "lexStep (LEsc acc) c =
     (if c = 34 \<or> c = 92 \<or> c = 47 then Some (LStr (c # acc), [])
      else if c = 98 then Some (LStr (8 # acc), [])
      else if c = 102 then Some (LStr (12 # acc), [])
      else if c = 110 then Some (LStr (10 # acc), [])
      else if c = 114 then Some (LStr (13 # acc), [])
      else if c = 116 then Some (LStr (9 # acc), [])
      else if c = 117 then Some (LUni acc [], [])
      else None)"
| "lexStep (LUni acc ds) c =
     (case hexVal c of
        None \<Rightarrow> None
      | Some d \<Rightarrow>
          (case ds of
             [d1, d2, d3] \<Rightarrow> Some (LStr ((((d1 * 16 + d2) * 16 + d3) * 16 + d) # acc), [])
           | _ \<Rightarrow> Some (LUni acc (ds @ [d]), [])))"
| "lexStep (LNum n acc) c =
     (case numStep n c of
        Some n' \<Rightarrow> Some (LNum n' (c # acc), [])
      | None \<Rightarrow>
          if numAccepting n
          then (case idleStep c of
                  None \<Rightarrow> None
                | Some (st, toks) \<Rightarrow> Some (st, TVal (JNumber (rev acc)) # toks))
          else None)"
| "lexStep (LLit rest v) c =
     (case rest of
        [] \<Rightarrow> None
      | x # xs \<Rightarrow> if c \<noteq> x then None else if xs = [] then Some (LIdle, [TVal v]) else Some (LLit xs v, []))"

fun lexer :: "lexstate \<Rightarrow> jsstring \<Rightarrow> token list option" where
  "lexer st [] =
     (case st of
        LIdle \<Rightarrow> Some []
      | LNum n acc \<Rightarrow> if numAccepting n then Some [TVal (JNumber (rev acc))] else None
      | _ \<Rightarrow> None)"
| "lexer st (c # cs) =
     (case lexStep st c of
        None \<Rightarrow> None
      | Some (st', toks) \<Rightarrow> (case lexer st' cs of None \<Rightarrow> None | Some rest \<Rightarrow> Some (toks @ rest)))"

text \<open>
  The parser keeps the containers that are still open, innermost first: an array with
  its elements so far, an object with its members so far and the key that waits for its
  value (both lists reversed).
\<close>

datatype container = CArr "json list" | CObj "(jsstring \<times> json) list" "jsstring option"

datatype pstate =
    PValue "container list"
  | PFirst "container list"
  | PKey "container list"
  | PColon "container list"
  | PNext "container list"
  | PDone json

text \<open>A finished value goes into the innermost open container, or is the result.\<close>

fun putValue :: "json \<Rightarrow> container list \<Rightarrow> pstate option" where
  "putValue v [] = Some (PDone v)"
| "putValue v (CArr xs # st) = Some (PNext (CArr (v # xs) # st))"
| "putValue v (CObj ms (Some k) # st) = Some (PNext (CObj ((k, v) # ms) None # st))"
| "putValue v (CObj ms None # st) = None"

fun closeContainer :: "token \<Rightarrow> container list \<Rightarrow> pstate option" where
  "closeContainer TRBracket (CArr xs # st) = putValue (JArray (rev xs)) st"
| "closeContainer TRBrace (CObj ms None # st) = putValue (JObject (rev ms)) st"
| "closeContainer t st = None"

fun startValue :: "token \<Rightarrow> container list \<Rightarrow> pstate option" where
  "startValue (TVal v) st = putValue v st"
| "startValue TLBracket st = Some (PFirst (CArr [] # st))"
| "startValue TLBrace st = Some (PFirst (CObj [] None # st))"
| "startValue t st = None"

fun readKey :: "token \<Rightarrow> container list \<Rightarrow> pstate option" where
  "readKey (TVal (JString k)) (CObj ms None # st) = Some (PColon (CObj ms (Some k) # st))"
| "readKey t st = None"

text \<open>
  \<open>PValue\<close>: a value must follow. \<open>PFirst\<close>: a container was just opened; it may close at
  once, else its first element or key follows. \<open>PKey\<close>: after a comma in an object.
  \<open>PColon\<close>: after a key. \<open>PNext\<close>: after an element or member, a comma or the closing
  bracket. \<open>PDone\<close>: the value is complete and nothing may follow.
\<close>

fun parseStep :: "pstate \<Rightarrow> token \<Rightarrow> pstate option" where
  "parseStep (PValue st) t = startValue t st"
| "parseStep (PFirst (CArr xs # st)) t =
     (if t = TRBracket then closeContainer t (CArr xs # st) else startValue t (CArr xs # st))"
| "parseStep (PFirst (CObj ms k # st)) t =
     (if t = TRBrace then closeContainer t (CObj ms k # st) else readKey t (CObj ms k # st))"
| "parseStep (PFirst []) t = None"
| "parseStep (PKey st) t = readKey t st"
| "parseStep (PColon st) t = (if t = TColon then Some (PValue st) else None)"
| "parseStep (PNext (CArr xs # st)) t =
     (if t = TComma then Some (PValue (CArr xs # st)) else closeContainer t (CArr xs # st))"
| "parseStep (PNext (CObj ms k # st)) t =
     (if t = TComma then Some (PKey (CObj ms k # st)) else closeContainer t (CObj ms k # st))"
| "parseStep (PNext []) t = None"
| "parseStep (PDone v) t = None"

fun parseTokens :: "pstate \<Rightarrow> token list \<Rightarrow> json option" where
  "parseTokens st [] = (case st of PDone v \<Rightarrow> Some v | _ \<Rightarrow> None)"
| "parseTokens st (t # ts) =
     (case parseStep st t of None \<Rightarrow> None | Some st' \<Rightarrow> parseTokens st' ts)"

definition JSON_parse :: "jsstring \<Rightarrow> exn + json" where
  "JSON_parse text =
     (case lexer LIdle text of
        None \<Rightarrow> Inl SyntaxError
      | Some toks \<Rightarrow>
          (case parseTokens (PValue []) toks of None \<Rightarrow> Inl SyntaxError | Some v \<Rightarrow> Inr v))"

text \<open>
  Reading \<open>v.question\<close>: a TypeError on \<open>null\<close>; the last member named \<open>question\<close> of an
  object; \<open>undefined\<close> (\<open>None\<close>) on an object without one and on every other value,
  whose prototypes have no such property.
\<close>

definition lookupLast :: "jsstring \<Rightarrow> (jsstring \<times> json) list \<Rightarrow> json option" where
  "lookupLast k ms = map_of (rev ms) k"

fun getQuestion :: "json \<Rightarrow> exn + json option" where
  "getQuestion JNull = Inl TypeError"
| "getQuestion (JObject ms) = Inr (lookupLast (js ''question'') ms)"
| "getQuestion v = Inr None"

text \<open>
  \<open>ToBoolean\<close> of a parsed value. A number is falsy when it is zero: here, when its
  mantissa has no digit but \<open>0\<close>. (A number too small for a double is zero as well; the
  source goes on to read \<open>question\<close>, which a number does not have, so the outcome is the
  same.)
\<close>

fun truthy :: "json \<Rightarrow> bool" where
  "truthy JNull = False"
| "truthy (JBool b) = b"
| "truthy (JNumber lexeme) =
     (\<exists>c \<in> set (takeWhile (\<lambda>c. c \<noteq> 101 \<and> c \<noteq> 69) lexeme). 49 \<le> c \<and> c \<le> 57)"
| "truthy (JString s) = (s \<noteq> [])"
| "truthy (JArray xs) = True"
| "truthy (JObject ms) = True"

section \<open>parseModelQuestion (the test script)\<close>

text \<open>The argument of the function: a string, or \<open>undefined\<close> or \<open>null\<close> when it is missing.\<close>

datatype jsarg = Undefined | Null | Str jsstring

text \<open>\<open>(raw || '')\<close>: the empty string for \<open>undefined\<close>, \<open>null\<close> and the empty string.\<close>

fun orEmpty :: "jsarg \<Rightarrow> jsstring" where
  "orEmpty (Str s) = s"
| "orEmpty a = []"

text \<open>
  A variable that holds a string or \<open>undefined\<close> is a \<open>jsstring option\<close>. \<open>falsy\<close> is
  \<open>!x\<close>, \<open>orElse a b\<close> is \<open>a || b\<close>.
\<close>

definition falsy :: "jsstring option \<Rightarrow> bool" where
  "falsy a = (a = None \<or> a = Some [])"

definition orElse :: "jsstring option \<Rightarrow> jsstring option \<Rightarrow> jsstring option" where
  "orElse a b = (if falsy a then b else a)"

text \<open>\<open>/\{[\s\S]*\}/\<close>\<close>

definition jsonObjectRegex :: regex where
  "jsonObjectRegex = seqs [ch 123, Star (Cls (\<lambda>c. isSpace c \<or> \<not> isSpace c)), ch 125]"

text \<open>\<open>/^[\d]+[\.\)]\s*/\<close>, also written \<open>/^[\d]+[\.)]\s*/\<close>\<close>

definition numberPrefixRegex :: regex where
  "numberPrefixRegex =
     seqs [Bol, Plus (Cls isDigit), Cls (\<lambda>c. c = 46 \<or> c = 41), Star (Cls isSpace)]"

text \<open>\<open>/^Question\s+[\d]+[\:\-\s]*/\<close>\<close>

definition questionNumberRegex :: regex where
  "questionNumberRegex =
     seqs [Bol, lit (js ''Question''), Plus (Cls isSpace), Plus (Cls isDigit),
           Star (Cls (\<lambda>c. c = 58 \<or> c = 45 \<or> isSpace c))]"

text \<open>\<open>/\r?\n/\<close>\<close>

definition newlineRegex :: regex where
  "newlineRegex = seqs [Opt (ch 13), ch 10]"

text \<open>
  \<open>/\b(what|how|why|explain|describe|define|implement|compare|difference|when|where|which)\b/i\<close>
\<close>

definition questionWords :: "jsstring list" where
  "questionWords =
     map js [''what'', ''how'', ''why'', ''explain'', ''describe'', ''define'', ''implement'',
             ''compare'', ''difference'', ''when'', ''where'', ''which'']"

definition questionWordRegex :: regex where
  "questionWordRegex = seqs [WordB, alts (map liti questionWords), WordB]"

text \<open>\<open>/^(Question|Q|Ask)[:\s]*/i\<close>\<close>

definition labelRegex :: regex where
  "labelRegex =
     seqs [Bol, alts (map liti [js ''Question'', js ''Q'', js ''Ask'']),
           Star (Cls (\<lambda>c. c = 58 \<or> isSpace c))]"

text \<open>
  The \<open>try\<close> block: the result is \<open>Inl\<close> when a statement throws, \<open>Inr (Some q)\<close> when the
  block returns \<open>q\<close> from the function, and \<open>Inr None\<close> when control leaves the block at
  its end.
\<close>

definition tryJson :: "jsstring \<Rightarrow> exn + jsstring option" where
  "tryJson raw =
     (case match0 jsonObjectRegex raw of
        None \<Rightarrow> Inr None
      | Some jsonMatch \<Rightarrow>
          (case JSON_parse jsonMatch of
             Inl e \<Rightarrow> Inl e
           | Inr parsed \<Rightarrow>
               if \<not> truthy parsed then Inr None
               else (case getQuestion parsed of
                       Inl e \<Rightarrow> Inl e
                     | Inr (Some (JString q)) \<Rightarrow>
                         if length (trim q) > 0 then Inr (Some (trim q)) else Inr None
                     | Inr _ \<Rightarrow> Inr None)))"

text \<open>
  The \<open>try\<close> statement with its \<open>catch\<close>, which swallows the exception: \<open>Some q\<close> when the
  function returns \<open>q\<close> there, \<open>None\<close> when control goes on after the statement.
\<close>

definition jsonPath :: "jsstring \<Rightarrow> jsstring option" where
  "jsonPath raw = (case tryJson raw of Inl e \<Rightarrow> None | Inr returned \<Rightarrow> returned)"

text \<open>\<open>text.split(/\r?\n/).map(l => l.trim()).filter(Boolean)\<close>\<close>

definition splitLines :: "jsstring \<Rightarrow> jsstring list" where
  "splitLines text = filter (\<lambda>l. l \<noteq> []) (map trim (splitRe newlineRegex text))"

text \<open>
  The choice of the candidate line, steps 1) to 3) of the source. The same statements,
  letter for letter, stand in \<open>generateQuestion\<close>.
\<close>

definition pickCandidateLine :: "jsstring list \<Rightarrow> jsstring option" where
  "pickCandidateLine lines =
     (let candidateLine = find (\<lambda>l. includesChar l qmark) lines;
          candidateLine =
            (if falsy candidateLine then find (\<lambda>l. test questionWordRegex l) lines
             else candidateLine)
      in if falsy candidateLine
         then (let numbered =
                     find (\<lambda>l. l \<noteq> [] \<and> length l > 5) (map (replace numberPrefixRegex []) lines)
               in orElse numbered (orElse (index0 lines) (Some [])))
         else candidateLine)"

text \<open>
  \<open>x.split('?')[0].trim()\<close>: calling \<open>trim\<close> on \<open>undefined\<close> would throw a TypeError.
\<close>

definition firstPiece :: "jsstring list \<Rightarrow> exn + jsstring" where
  "firstPiece pieces = (case index0 pieces of None \<Rightarrow> Inl TypeError | Some p \<Rightarrow> Inr (trim p))"

text \<open>
  \<open>const question = candidateLine ? (candidateLine.endsWith('?') ? candidateLine :
  candidateLine + '?') : ''\<close>
\<close>

definition withQuestionMark :: "jsstring \<Rightarrow> jsstring" where
  "withQuestionMark candidateLine =
     (if candidateLine \<noteq> []
      then (if endsWith candidateLine qmark then candidateLine else candidateLine @ [qmark])
      else [])"

text \<open>
  The statements after the \<open>try\<close> statement.
  \<open>let cleanText = raw.replace(/^[\d]+[\.\)]\s*/, '').replace(/^Question\s+[\d]+[\:\-\s]*/, '').trim()\<close>
\<close>

definition cleanText :: "jsstring \<Rightarrow> jsstring" where
  "cleanText raw = trim (replace questionNumberRegex [] (replace numberPrefixRegex [] raw))"

text \<open>
  \<open>candidateLine = (candidateLine || '').replace(/^[\d]+[\.\)]\s*/, '')
  .replace(/^(Question|Q|Ask)[:\s]*/i, '').trim()\<close>
\<close>

definition normalizeLine :: "jsstring option \<Rightarrow> jsstring" where
  "normalizeLine candidateLine =
     trim (replace labelRegex []
       (replace numberPrefixRegex [] (case orElse candidateLine (Some []) of None \<Rightarrow> [] | Some l \<Rightarrow> l)))"

text \<open>
  \<open>if (candidateLine.includes('?')) { const firstQ = candidateLine.split('?')[0].trim();
  candidateLine = firstQ ? firstQ + '?' : candidateLine; }\<close>
\<close>

definition truncateAtQuestionMark :: "jsstring \<Rightarrow> exn + jsstring" where
  "truncateAtQuestionMark candidateLine =
     (if includesChar candidateLine qmark
      then (case firstPiece (splitChar qmark candidateLine) of
              Inl e \<Rightarrow> Inl e
            | Inr firstQ \<Rightarrow> Inr (if firstQ \<noteq> [] then firstQ @ [qmark] else candidateLine))
      else Inr candidateLine)"

text \<open>The value of \<open>question\<close>, when no statement throws on the way.\<close>

definition fallbackQuestion :: "jsstring \<Rightarrow> exn + jsstring" where
  "fallbackQuestion raw =
     (case truncateAtQuestionMark (normalizeLine (pickCandidateLine (splitLines (cleanText raw)))) of
        Inl e \<Rightarrow> Inl e
      | Inr candidateLine \<Rightarrow> Inr (withQuestionMark candidateLine))"

text \<open>
  The function. \<open>Inl\<close> is an exception that leaves it, \<open>Inr None\<close> is the result \<open>null\<close>.
  An exception in the \<open>try\<close> block is caught there and control falls through. The last
  statements are \<open>if (!question || question === '?') return null; return question\<close>.
\<close>

definition parseModelQuestion :: "jsarg \<Rightarrow> exn + jsstring option" where
  "parseModelQuestion arg =
     (let raw = trim (orEmpty arg) in
      case jsonPath raw of
        Some q \<Rightarrow> Inr (Some q)
      | None \<Rightarrow>
          (case fallbackQuestion raw of
             Inl e \<Rightarrow> Inl e
           | Inr question \<Rightarrow>
               if question = [] \<or> question = [qmark] then Inr None else Inr (Some question)))"

text \<open>The sample inputs of the script.\<close>

definition samples :: "jsstring list" where
  \<open>samples =
     [js ''1. What is polymorphism in OOP? 2. Explain encapsulation.'',
      js ''What is polymorphism in OOP?'' @ [10] @ js ''What is encapsulation?'',
      js ''Question: What is a closure in JavaScript?'' @ [10]
        @ js ''Question: Explain prototypal inheritance?'',
      js ''{"question":"Describe how a hash table works?"}'',
      js ''Here are some questions:'' @ [10] @ js ''1) What is Big O?'' @ [10]
        @ js ''2) How do you reverse a linked list?'',
      js ''What is a REST API? Also, explain GraphQL differences?'']\<close>

section \<open>generateQuestion (the Gemini service)\<close>

text \<open>\<open>/\s+/g\<close>\<close>

definition spacesRegex :: regex where
  "spacesRegex = Plus (Cls isSpace)"

text \<open>\<open>/^[\d]+[\.]?\)?\s*/\<close>\<close>

definition looseNumberPrefixRegex :: regex where
  "looseNumberPrefixRegex =
     seqs [Bol, Plus (Cls isDigit), Opt (ch 46), Opt (ch 41), Star (Cls isSpace)]"

text \<open>\<open>/^(Question|Q|Ask)[:\s-]*/i\<close>\<close>

definition dashLabelRegex :: regex where
  "dashLabelRegex =
     seqs [Bol, alts (map liti [js ''Question'', js ''Q'', js ''Ask'']),
           Star (Cls (\<lambda>c. c = 58 \<or> isSpace c \<or> c = 45))]"

text \<open>\<open>/\b(?:Also|Additionally|And then|Next|Follow up|Follow-up|As well as)\b/i\<close>\<close>

definition connectors :: "jsstring list" where
  "connectors =
     map js [''Also'', ''Additionally'', ''And then'', ''Next'', ''Follow up'', ''Follow-up'',
             ''As well as'']"

definition connectorRegex :: regex where
  "connectorRegex = seqs [WordB, alts (map liti connectors), WordB]"

text \<open>\<open>/[.!]/\<close>\<close>

definition sentenceEndRegex :: regex where
  "sentenceEndRegex = Cls (\<lambda>c. c = 46 \<or> c = 33)"

text \<open>
  The local function \<open>keepOnlyFirstQuestion\<close>. \<open>slice(0, n)\<close> with \<open>n \<ge> 0\<close> is \<open>take\<close>.
\<close>

definition keepOnlyFirstQuestion :: "jsstring \<Rightarrow> exn + jsstring" where
  "keepOnlyFirstQuestion text =
     (if text = [] then Inr []
      else
        let candidate = trim (replaceAll spacesRegex (js '' '') [] text);
            candidate = trim (replace dashLabelRegex [] (replace looseNumberPrefixRegex [] candidate))
        in case firstPiece (splitRe connectorRegex candidate) of
             Inl e \<Rightarrow> Inl e
           | Inr candidate \<Rightarrow>
               if includesChar candidate qmark
               then (case firstPiece (splitChar qmark candidate) of
                       Inl e \<Rightarrow> Inl e
                     | Inr firstQ \<Rightarrow> Inr (if firstQ \<noteq> [] then firstQ @ [qmark] else candidate))
               else
                 let sentenceEnd = search sentenceEndRegex candidate
                 in Inr (if sentenceEnd \<noteq> - 1 then trim (take (nat (sentenceEnd + 1)) candidate)
                         else candidate))"

text \<open>
  The first \<open>try\<close> block, on the whole response: \<open>Inr (Some q)\<close> when it returns \<open>q\<close>
  from the function.
\<close>

definition tryWholeJson :: "jsstring \<Rightarrow> exn + jsstring option" where
  "tryWholeJson raw =
     (case JSON_parse raw of
        Inl e \<Rightarrow> Inl e
      | Inr parsed \<Rightarrow>
          if \<not> truthy parsed then Inr None
          else (case getQuestion parsed of
                  Inl e \<Rightarrow> Inl e
                | Inr (Some (JString q)) \<Rightarrow>
                    (case keepOnlyFirstQuestion q of
                       Inl e \<Rightarrow> Inl e
                     | Inr single \<Rightarrow> if single \<noteq> [] then Inr (Some single) else Inr None)
                | Inr _ \<Rightarrow> Inr None))"

definition wholeJsonPath :: "jsstring \<Rightarrow> jsstring option" where
  "wholeJsonPath raw = (case tryWholeJson raw of Inl e \<Rightarrow> None | Inr returned \<Rightarrow> returned)"

definition looseCleanText :: "jsstring \<Rightarrow> jsstring" where
  "looseCleanText raw = trim (replace questionNumberRegex [] (replace looseNumberPrefixRegex [] raw))"

definition fallbackMessage :: jsstring where
  "fallbackMessage =
     js ''I'm having trouble coming up with a question right now. Let's try again in a moment.''"

text \<open>
  The statements of \<open>generateQuestion\<close> from \<open>const raw\<close> to \<open>return question\<close>, on the
  text of the response. The block that only logs a warning has no part in the result and
  is left out. The second \<open>try\<close> statement is the one of \<open>parseModelQuestion\<close>, word
  for word.
\<close>

definition extractQuestion :: "jsarg \<Rightarrow> exn + jsstring" where
  "extractQuestion responseText =
     (let raw = trim (orEmpty responseText) in
      case wholeJsonPath raw of
        Some single \<Rightarrow> Inr single
      | None \<Rightarrow>
          (case jsonPath raw of
             Some q \<Rightarrow> Inr q
           | None \<Rightarrow>
               (case keepOnlyFirstQuestion
                       (case orElse (pickCandidateLine (splitLines (looseCleanText raw))) (Some []) of
                          None \<Rightarrow> [] | Some l \<Rightarrow> l) of
                  Inl e \<Rightarrow> Inl e
                | Inr candidateLine \<Rightarrow>
                    let question = withQuestionMark candidateLine
                    in if question = [] \<or> question = [qmark] then Inr fallbackMessage
                       else Inr question)))"

text \<open>
  \<open>generateQuestion\<close>: the request to the model is outside this program, so the function
  takes its outcome, an exception or the text of the response. The outer \<open>catch\<close> turns
  every exception into the fixed message.
\<close>

definition generateQuestion :: "exn + jsarg \<Rightarrow> jsstring" where
  "generateQuestion response =
     (case response of
        Inl e \<Rightarrow> fallbackMessage
      | Inr responseText \<Rightarrow>
          (case extractQuestion responseText of Inl e \<Rightarrow> fallbackMessage | Inr question \<Rightarrow> question))"

section \<open>The words of the specification\<close>

text \<open>
  The greedy brace-delimited substring of a text, as the specification describes it: from
  the first \<open>{\<close> to the last \<open>}\<close> after it; none when no \<open>}\<close> follows the first \<open>{\<close>.
\<close>

definition braceSpan :: "jsstring \<Rightarrow> jsstring option" where
  "braceSpan s =
     (case dropWhile (\<lambda>c. c \<noteq> 123) s of
        [] \<Rightarrow> None
      | b # rest \<Rightarrow>
          if 125 \<in> set rest then Some (b # rev (dropWhile (\<lambda>c. c \<noteq> 125) (rev rest))) else None)"

text \<open>
  A word \<open>w\<close> stands at the start of a text, letters compared without regard to case.
\<close>

definition prefixCI :: "jsstring \<Rightarrow> jsstring \<Rightarrow> bool" where
  "prefixCI w s = (length w \<le> length s \<and> map asciiUpper (take (length w) s) = map asciiUpper w)"

text \<open>
  \<open>w\<close> is a whole word between the text \<open>before\<close> and the text \<open>after\<close>: it starts
  \<open>after\<close>, no word character stands just before it and none just after it. A line
  contains \<open>w\<close> as a whole word when that holds at one of its positions.
\<close>

definition wholeWordAt :: "jsstring \<Rightarrow> jsstring \<Rightarrow> jsstring \<Rightarrow> bool" where
  "wholeWordAt w before after =
     (prefixCI w after
      \<and> \<not> (before \<noteq> [] \<and> isWord (last before))
      \<and> \<not> (drop (length w) after \<noteq> [] \<and> isWord (hd (drop (length w) after))))"

definition containsWord :: "jsstring \<Rightarrow> jsstring \<Rightarrow> bool" where
  "containsWord w line =
     (\<exists>k \<in> set [0..<Suc (length line)]. wholeWordAt w (take k line) (drop k line))"

definition hasQuestionWord :: "jsstring \<Rightarrow> bool" where
  "hasQuestionWord line = (\<exists>w \<in> set questionWords. containsWord w line)"

text \<open>
  A line without its leading number: one or more digits, then \<open>.\<close> or \<open>)\<close>, then the
  white space that follows. A line that does not start so is left as it is.
\<close>

definition stripNumberPrefix :: "jsstring \<Rightarrow> jsstring" where
  "stripNumberPrefix line =
     (case dropWhile isDigit line of
        [] \<Rightarrow> line
      | c # rest \<Rightarrow>
          if takeWhile isDigit line \<noteq> [] \<and> (c = 46 \<or> c = 41) then dropWhile isSpace rest
          else line)"

text \<open>
  The steps of \<open>keepOnlyFirstQuestion\<close>, in words. Every run of white space becomes one
  space.
\<close>

function collapseSpaces :: "jsstring \<Rightarrow> jsstring" where
  "collapseSpaces [] = []"
| "collapseSpaces (c # cs) =
     (if isSpace c then 32 # collapseSpaces (dropWhile isSpace cs) else c # collapseSpaces cs)"
  by pat_completeness auto
termination
  by (relation "measure length") (auto simp: length_dropWhile_le less_Suc_eq_le)

text \<open>
  A leading numbering: digits, then a \<open>.\<close> if there is one, then a \<open>)\<close> if there is one,
  then white space.
\<close>

definition dropOne :: "nat \<Rightarrow> jsstring \<Rightarrow> jsstring" where
  "dropOne x s = (case s of [] \<Rightarrow> [] | c # r \<Rightarrow> if c = x then r else s)"

definition stripNumbering :: "jsstring \<Rightarrow> jsstring" where
  "stripNumbering s =
     (if takeWhile isDigit s = [] then s
      else dropWhile isSpace (dropOne 41 (dropOne 46 (dropWhile isDigit s))))"

text \<open>
  A leading label: the first of \<open>Question\<close>, \<open>Q\<close>, \<open>Ask\<close> that the text starts with,
  whatever the case of its letters, and the colons, white space and dashes after it.
\<close>

definition labels :: "jsstring list" where
  "labels = [js ''Question'', js ''Q'', js ''Ask'']"

definition stripLabel :: "jsstring \<Rightarrow> jsstring" where
  "stripLabel s =
     (case find (\<lambda>w. prefixCI w s) labels of
        None \<Rightarrow> s
      | Some w \<Rightarrow> dropWhile (\<lambda>c. c = 58 \<or> isSpace c \<or> c = 45) (drop (length w) s))"

text \<open>
  The text before the first position at which one of the connectors stands as a whole
  word, whatever the case of its letters.
\<close>

fun beforeConnector :: "jsstring \<Rightarrow> jsstring \<Rightarrow> jsstring" where
  "beforeConnector before [] = []"
| "beforeConnector before (c # r) =
     (if \<exists>w \<in> set connectors. wholeWordAt w before (c # r) then []
      else c # beforeConnector (before @ [c]) r)"

definition cutAtConnector :: "jsstring \<Rightarrow> jsstring" where
  "cutAtConnector s = beforeConnector [] s"

text \<open>The text up to and including its first \<open>.\<close> or \<open>!\<close>; all of it when it has none.\<close>

definition cutAfterSentenceEnd :: "jsstring \<Rightarrow> jsstring" where
  "cutAfterSentenceEnd s =
     (case dropWhile (\<lambda>c. \<not> (c = 46 \<or> c = 33)) s of
        [] \<Rightarrow> s
      | c # r \<Rightarrow> takeWhile (\<lambda>c. \<not> (c = 46 \<or> c = 33)) s @ [c])"

text \<open>
  The two copies of the extraction agree on a response: they return the same question, or
  both fail, the script with \<open>null\<close> and the service with its fixed message.
\<close>

definition sameQuestion :: "jsstring \<Rightarrow> bool" where
  "sameQuestion raw =
     (case parseModelQuestion (Str raw) of
        Inl e \<Rightarrow> False
      | Inr None \<Rightarrow> generateQuestion (Inr (Str raw)) = fallbackMessage
      | Inr (Some q) \<Rightarrow> generateQuestion (Inr (Str raw)) = q)"

section \<open>Notions for the proofs\<close>

text \<open>The test of \<open>\b\<close> at a position.\<close>

definition boundary :: "pos \<Rightarrow> bool" where
  "boundary p =
     ((case fst p of [] \<Rightarrow> False | a # _ \<Rightarrow> isWord a) \<noteq> (case snd p of [] \<Rightarrow> False | b # _ \<Rightarrow> isWord b))"

text \<open>
  The shape of the two word patterns of the source, \<open>\b(w1|w2|...)\b\<close> under the \<open>i\<close>
  flag, and the words for which \<open>\b\<close> around them means what "whole word" means: they
  start and end with a word character.
\<close>

definition wordRegex :: "jsstring list \<Rightarrow> regex" where
  "wordRegex ws = seqs [WordB, alts (map liti ws), WordB]"

definition wordy :: "jsstring \<Rightarrow> bool" where
  "wordy w = (w \<noteq> [] \<and> isWord (hd w) \<and> isWord (last w))"

text \<open>\<open>e\<close> is the end that the matcher reports for \<open>re\<close> at \<open>p\<close>.\<close>

definition firstIs :: "regex \<Rightarrow> pos \<Rightarrow> pos \<Rightarrow> bool" where
  "firstIs re p e = (\<exists>rest. matches re p = e # rest)"

text \<open>The text from a position up to the first position at which \<open>re\<close> matches.\<close>

fun untilMatch :: "regex \<Rightarrow> jsstring \<Rightarrow> jsstring \<Rightarrow> jsstring" where
  "untilMatch re l [] = []"
| "untilMatch re l (c # r) = (if matches re (l, c # r) \<noteq> [] then [] else c # untilMatch re (c # l) r)"

section \<open>Facts about the string functions\<close>

lemma trim_Nil [simp]: "trim [] = []"
  by (simp add: trim_def)

lemma trim_edges:
  assumes "trim s \<noteq> []"
  shows "\<not> isSpace (hd (trim s)) \<and> \<not> isSpace (last (trim s))"
proof -
  define t where "t = dropWhile isSpace s"
  define u where "u = dropWhile isSpace (rev t)"
  have ts: "trim s = rev u" by (simp add: trim_def t_def u_def)
  with assms have u: "u \<noteq> []" by simp
  then have hu: "\<not> isSpace (hd u)" unfolding u_def by (rule hd_dropWhile)
  have "rev t = takeWhile isSpace (rev t) @ u" by (simp add: u_def)
  then have "last (rev t) = last u" using u by (metis last_appendR)
  moreover have "t \<noteq> []" using u by (auto simp: u_def)
  ultimately have "last u = hd t" by (simp add: last_rev)
  moreover have "\<not> isSpace (hd t)" using \<open>t \<noteq> []\<close> unfolding t_def by (rule hd_dropWhile)
  ultimately show ?thesis using hu u by (simp add: ts hd_rev last_rev)
qed

lemma dropWhile_hd_id: "xs \<noteq> [] \<Longrightarrow> \<not> P (hd xs) \<Longrightarrow> dropWhile P xs = xs"
  by (cases xs) auto

lemma trim_fixed:
  assumes "s = [] \<or> (\<not> isSpace (hd s) \<and> \<not> isSpace (last s))"
  shows "trim s = s"
proof (cases "s = []")
  case True
  then show ?thesis by simp
next
  case False
  with assms have h: "\<not> isSpace (hd s)" and l: "\<not> isSpace (last s)" by auto
  have "dropWhile isSpace s = s" using False h by (rule dropWhile_hd_id)
  moreover have "dropWhile isSpace (rev s) = rev s"
    using False l by (intro dropWhile_hd_id) (auto simp: hd_rev)
  ultimately show ?thesis by (simp add: trim_def)
qed

lemma trim_idem [simp]: "trim (trim s) = trim s"
  using trim_edges[of s] by (intro trim_fixed) blast

lemma set_trim: "set (trim s) \<subseteq> set s"
proof -
  have "set (trim s) = set (dropWhile isSpace (rev (dropWhile isSpace s)))"
    by (simp add: trim_def)
  also have "\<dots> \<subseteq> set (rev (dropWhile isSpace s))" by (rule set_dropWhileD[THEN subsetI])
  also have "\<dots> \<subseteq> set s" using set_dropWhileD[of _ isSpace s] by auto
  finally show ?thesis .
qed

lemma trim_empty_spaces: "trim s = [] \<Longrightarrow> \<forall>x \<in> set s. isSpace x"
proof -
  assume "trim s = []"
  then have "dropWhile isSpace (rev (dropWhile isSpace s)) = []" by (simp add: trim_def)
  then have "\<forall>x \<in> set (rev (dropWhile isSpace s)). isSpace x" by (simp add: dropWhile_eq_Nil_conv)
  then have "\<forall>x \<in> set (dropWhile isSpace s). isSpace x" by simp
  then have "dropWhile isSpace s = []" using hd_dropWhile[of isSpace s]
    by (metis hd_in_set)
  then show ?thesis by (simp add: dropWhile_eq_Nil_conv)
qed

lemma trim_snoc:
  assumes "trim s = s" "\<not> isSpace c"
  shows "trim (s @ [c]) = s @ [c]"
proof (cases "s = []")
  case True
  with assms show ?thesis by (simp add: trim_def)
next
  case False
  with assms trim_edges[of s] have "\<not> isSpace (hd s)" by simp
  with False assms show ?thesis by (intro trim_fixed) simp
qed

lemma qmark_not_space [simp]: "\<not> isSpace qmark"
  by (simp add: isSpace_def qmark_def)

lemma index0_splitChar: "index0 (splitChar c s) = Some (takeWhile (\<lambda>x. x \<noteq> c) s)"
  by (induction s) (auto simp: index0_def split: list.splits)

lemma firstPiece_splitChar: "firstPiece (splitChar c s) = Inr (trim (takeWhile (\<lambda>x. x \<noteq> c) s))"
  by (simp add: firstPiece_def index0_splitChar)

lemma truncateAtQuestionMark_eq:
  "truncateAtQuestionMark c =
     Inr (if qmark \<in> set c \<and> trim (takeWhile (\<lambda>x. x \<noteq> qmark) c) \<noteq> []
          then trim (takeWhile (\<lambda>x. x \<noteq> qmark) c) @ [qmark] else c)"
  by (simp add: truncateAtQuestionMark_def firstPiece_splitChar includesChar_def)

lemma endsWith_snoc [simp]: "endsWith (s @ [c]) d = (c = d)"
  by (simp add: endsWith_def)

lemma endsWith_last: "endsWith s c = (s \<noteq> [] \<and> last s = c)"
  by (cases s rule: rev_cases) (auto simp: endsWith_def)

lemma trim_normalizeLine [simp]: "trim (normalizeLine x) = normalizeLine x"
  by (simp add: normalizeLine_def)

lemma blank_prefix_hd:
  assumes "trim n = n" "qmark \<in> set n" "trim (takeWhile (\<lambda>x. x \<noteq> qmark) n) = []"
  shows "hd n = qmark"
proof (rule ccontr)
  assume h: "hd n \<noteq> qmark"
  from assms(2) have ne: "n \<noteq> []" by auto
  with h have "hd n \<in> set (takeWhile (\<lambda>x. x \<noteq> qmark) n)" by (cases n) auto
  with trim_empty_spaces[OF assms(3)] have "isSpace (hd n)" by blast
  moreover from trim_edges[of n] assms(1) ne have "\<not> isSpace (hd n)" by simp
  ultimately show False by simp
qed

lemma fallbackQuestion_cases:
  fixes raw :: jsstring
  defines "n \<equiv> normalizeLine (pickCandidateLine (splitLines (cleanText raw)))"
  defines "f \<equiv> trim (takeWhile (\<lambda>x. x \<noteq> qmark) n)"
  shows "fallbackQuestion raw =
     Inr (if qmark \<in> set n \<and> f \<noteq> [] then f @ [qmark]
          else if n = [] then []
          else if endsWith n qmark then n else n @ [qmark])"
  by (simp add: fallbackQuestion_def truncateAtQuestionMark_eq withQuestionMark_def n_def f_def)

lemma count_list_snoc_one: "c \<notin> set s \<Longrightarrow> count_list (s @ [c]) c = 1"
  by (induction s) auto

lemma fallbackQuestion_shape:
  assumes "fallbackQuestion raw = Inr q" "q \<noteq> []"
  shows "trim q = q \<and> endsWith q qmark \<and> (hd q \<noteq> qmark \<longrightarrow> count_list q qmark = 1)"
proof -
  define n where "n = normalizeLine (pickCandidateLine (splitLines (cleanText raw)))"
  define f where "f = trim (takeWhile (\<lambda>x. x \<noteq> qmark) n)"
  have tn: "trim n = n" by (simp add: n_def)
  from assms(1) have "Inr q = fallbackQuestion raw" by simp
  also have "\<dots> = Inr (if qmark \<in> set n \<and> f \<noteq> [] then f @ [qmark]
          else if n = [] then []
          else if endsWith n qmark then n else n @ [qmark])"
    unfolding n_def f_def by (rule fallbackQuestion_cases)
  finally have q: "q = (if qmark \<in> set n \<and> f \<noteq> [] then f @ [qmark]
          else if n = [] then []
          else if endsWith n qmark then n else n @ [qmark])"
    by (simp only: sum.inject)
  have fq: "qmark \<notin> set f"
  proof -
    have "qmark \<notin> set (takeWhile (\<lambda>x. x \<noteq> qmark) n)" by (auto dest: set_takeWhileD)
    with set_trim[of "takeWhile (\<lambda>x. x \<noteq> qmark) n"] show ?thesis by (auto simp: f_def)
  qed
  show ?thesis
  proof (cases "qmark \<in> set n \<and> f \<noteq> []")
    case True
    then have qf: "q = f @ [qmark]" using q by simp
    have "trim f = f" by (simp add: f_def)
    then have "trim q = q" unfolding qf by (rule trim_snoc) simp
    moreover have "count_list q qmark = 1" unfolding qf using fq by (rule count_list_snoc_one)
    ultimately show ?thesis by (simp add: qf)
  next
    case False
    note nf = this
    from assms(2) q nf have ne: "n \<noteq> []" by (auto split: if_splits)
    show ?thesis
    proof (cases "qmark \<in> set n")
      case True
      with nf have "f = []" by simp
      with tn True have hd: "hd n = qmark" unfolding f_def by (intro blank_prefix_hd)
      show ?thesis
      proof (cases "endsWith n qmark")
        case True
        with q nf ne have "q = n" by simp
        with tn True hd show ?thesis by simp
      next
        case False
        with q nf ne have qn: "q = n @ [qmark]" by simp
        have "trim q = q" unfolding qn using tn by (rule trim_snoc) simp
        moreover have "hd q = qmark" using hd ne by (simp add: qn)
        ultimately show ?thesis by (simp add: qn)
      qed
    next
      case False
      then have "\<not> endsWith n qmark" by (metis endsWith_last last_in_set)
      with q nf ne have qn: "q = n @ [qmark]" by simp
      have "trim q = q" unfolding qn using tn by (rule trim_snoc) simp
      moreover have "count_list q qmark = 1" unfolding qn using False by (rule count_list_snoc_one)
      ultimately show ?thesis by (simp add: qn)
    qed
  qed
qed

lemma jsonPath_shape:
  assumes "jsonPath raw = Some q"
  shows "q \<noteq> [] \<and> trim q = q"
  using assms
  by (auto simp: jsonPath_def tryJson_def split: sum.splits option.splits if_splits json.splits)

section \<open>Evaluation on concrete inputs\<close>

text \<open>The definitions the simplifier unfolds to run the model on a concrete string.\<close>

lemmas string_defs = js_def isSpace_def isDigit_def isWord_def trim_def includesChar_def
  endsWith_def qmark_def index0_def

lemmas regex_defs = Plus_def Opt_def ch_def chi_def asciiUpper_def test_def matched_def
  match0_def search_def replace_def splitRe_def

lemmas json_defs = JSON_parse_def numAccepting_def numStep_def hexVal_def idleStep_def
  lookupLast_def

lemmas parse_defs = orElse_def falsy_def jsonObjectRegex_def numberPrefixRegex_def
  questionNumberRegex_def newlineRegex_def questionWords_def questionWordRegex_def
  labelRegex_def tryJson_def jsonPath_def splitLines_def pickCandidateLine_def
  firstPiece_def withQuestionMark_def cleanText_def normalizeLine_def
  truncateAtQuestionMark_def fallbackQuestion_def parseModelQuestion_def

lemmas generate_defs = spacesRegex_def looseNumberPrefixRegex_def dashLabelRegex_def
  connectors_def connectorRegex_def sentenceEndRegex_def keepOnlyFirstQuestion_def
  tryWholeJson_def wholeJsonPath_def looseCleanText_def fallbackMessage_def
  extractQuestion_def generateQuestion_def replaceAll.simps

lemmas ev = string_defs regex_defs json_defs parse_defs

lemmas evg = ev generate_defs

section \<open>Facts about the matcher\<close>

lemma matches_Star_Cls_Nil [simp]: "matches (Star (Cls p)) (l, []) = [(l, [])]"
  by simp

lemma matches_Star_Cls_Cons:
  "matches (Star (Cls p)) (l, c # r) =
     (if p c then matches (Star (Cls p)) (c # l, r) @ [(l, c # r)] else [(l, c # r)])"
  by simp

lemma matches_Star_Cls_hd:
  "\<exists>rest. matches (Star (Cls p)) (l, r) = (rev (takeWhile p r) @ l, dropWhile p r) # rest"
proof (induction r arbitrary: l)
  case Nil
  show ?case by simp
next
  case (Cons c r)
  show ?case
  proof (cases "p c")
    case True
    from Cons[of "c # l"] obtain rest where
      "matches (Star (Cls p)) (c # l, r) = (rev (takeWhile p r) @ c # l, dropWhile p r) # rest"
      by blast
    with True show ?thesis by (simp del: matches.simps add: matches_Star_Cls_Cons)
  next
    case False
    then show ?thesis by (simp del: matches.simps add: matches_Star_Cls_Cons)
  qed
qed

text \<open>
  After a greedy run over a class, a continuation that cannot start with a character of
  the class sees the end of the longest run only.
\<close>

lemma matches_Star_Cls_then:
  assumes "\<And>l c r. p c \<Longrightarrow> f (l, c # r) = []"
  shows "concat (map f (matches (Star (Cls p)) (l, r))) = f (rev (takeWhile p r) @ l, dropWhile p r)"
proof (induction r arbitrary: l)
  case Nil
  show ?case by simp
next
  case (Cons c r)
  show ?case
  proof (cases "p c")
    case True
    with Cons[of "c # l"] assms[of c l r] show ?thesis
      by (simp del: matches.simps add: matches_Star_Cls_Cons)
  next
    case False
    then show ?thesis by (simp del: matches.simps add: matches_Star_Cls_Cons)
  qed
qed

lemma matches_Seq_Eps: "matches (Seq re Eps) p = matches re p"
proof -
  have "concat (map (matches Eps) xs) = xs" for xs
    by (induction xs) auto
  then show ?thesis by (cases p) simp
qed

lemma exec_None_iff:
  "exec re l r = None \<longleftrightarrow> (\<forall>k \<le> length r. matches re (rev (take k r) @ l, drop k r) = [])"
proof (induction r arbitrary: l)
  case Nil
  show ?case by (auto split: list.splits)
next
  case (Cons c r)
  show ?case
  proof (cases "matches re (l, c # r)")
    case Nil
    have "(\<forall>k \<le> length (c # r). matches re (rev (take k (c # r)) @ l, drop k (c # r)) = [])
        \<longleftrightarrow> (\<forall>k \<le> length r. matches re (rev (take k r) @ c # l, drop k r) = [])"
      (is "?A \<longleftrightarrow> ?B")
    proof
      assume a: ?A
      show ?B
      proof (intro allI impI)
        fix k assume "k \<le> length r"
        with a[rule_format, of "Suc k"] show "matches re (rev (take k r) @ c # l, drop k r) = []"
          by simp
      qed
    next
      assume b: ?B
      show ?A
      proof (intro allI impI)
        fix k assume k: "k \<le> length (c # r)"
        show "matches re (rev (take k (c # r)) @ l, drop k (c # r)) = []"
        proof (cases k)
          case 0
          with Nil show ?thesis by simp
        next
          case (Suc j)
          with k b[rule_format, of j] show ?thesis by simp
        qed
      qed
    qed
    with Nil Cons.IH[of "c # l"] show ?thesis by simp
  next
    case (Cons e es)
    then have "\<not> (\<forall>k \<le> length (c # r). matches re (rev (take k (c # r)) @ l, drop k (c # r)) = [])"
      by (auto intro: exI[of _ 0])
    with Cons show ?thesis by simp
  qed
qed

text \<open>A pattern that starts with \<open>^\<close> can only match at the start of the input.\<close>

lemma exec_Bol_later: "l \<noteq> [] \<Longrightarrow> exec (Seq Bol re) l r = None"
  by (induction r arbitrary: l) auto

lemma exec_Bol:
  "exec (Seq Bol re) [] s =
     (case matches re ([], s) of [] \<Rightarrow> None | e # _ \<Rightarrow> Some (([], s), e))"
  by (cases s) (auto simp: exec_Bol_later split: list.splits)

lemma replace_Bol:
  "replace (Seq Bol re) rep s = (case matches re ([], s) of [] \<Rightarrow> s | e # _ \<Rightarrow> rep @ snd e)"
  by (simp add: replace_def exec_Bol split: list.splits)

text \<open>A literal pattern under the \<open>i\<close> flag matches a prefix that agrees up to ASCII case.\<close>

lemma prefixCI_Nil [simp]: "prefixCI [] s"
  by (simp add: prefixCI_def)

lemma prefixCI_Cons:
  "prefixCI (c # w) s = (case s of [] \<Rightarrow> False | x # s' \<Rightarrow> asciiUpper x = asciiUpper c \<and> prefixCI w s')"
  by (cases s) (auto simp: prefixCI_def)

lemma matches_liti:
  "matches (liti w) (l, r) =
     (if prefixCI w r then [(rev (take (length w) r) @ l, drop (length w) r)] else [])"
proof (induction w arbitrary: l r)
  case Nil
  show ?case by simp
next
  case (Cons c w)
  show ?case
  proof (cases r)
    case Nil
    then show ?thesis by (simp add: chi_def prefixCI_Cons)
  next
    case (Cons x r')
    with Cons.IH[of "x # l" r'] show ?thesis
      by (simp add: chi_def prefixCI_Cons)
  qed
qed

lemma matches_alts: "matches (alts rs) p = concat (map (\<lambda>re. matches re p) rs)"
proof (induction rs rule: alts.induct)
  case 1
  show ?case by (cases p) (simp split: list.splits)
next
  case (2 re)
  show ?case by simp
next
  case (3 re r' rs)
  then show ?case by (cases p) simp
qed

section \<open>The greedy brace pattern\<close>

text \<open>The ends that \<open>[\s\S]*\}\<close> can reach from a position, the farthest first.\<close>

lemma matches_close:
  "matches (Seq (ch 125) Eps) (l, r) = (case r of [] \<Rightarrow> [] | c # r' \<Rightarrow> if c = 125 then [(c # l, r')] else [])"
  by (simp add: ch_def split: list.splits)

lemma body_no_close:
  "125 \<notin> set r \<Longrightarrow> concat (map (matches (Seq (ch 125) Eps)) (matches (Star (Cls (\<lambda>c. True))) (l, r))) = []"
proof (induction r arbitrary: l)
  case Nil
  show ?case by (simp add: ch_def)
next
  case (Cons c r)
  then show ?case
    by (simp del: matches.simps add: matches_Star_Cls_Cons matches_close)
qed

lemma body_last_close:
  assumes "125 \<notin> set v"
  shows "\<exists>rest. concat (map (matches (Seq (ch 125) Eps)) (matches (Star (Cls (\<lambda>c. True))) (l, u @ 125 # v)))
           = (125 # rev u @ l, v) # rest"
proof (induction u arbitrary: l)
  case Nil
  from assms show ?case
    by (simp del: matches.simps add: matches_Star_Cls_Cons matches_close body_no_close)
next
  case (Cons c u)
  from Cons[of "c # l"] obtain rest where
    "concat (map (matches (Seq (ch 125) Eps)) (matches (Star (Cls (\<lambda>c. True))) (c # l, u @ 125 # v)))
       = (125 # rev u @ c # l, v) # rest"
    by blast
  then show ?case
    by (simp del: matches.simps add: matches_Star_Cls_Cons matches_close)
qed

lemma jsonObjectRegex_unfold:
  "matches jsonObjectRegex (l, r) =
     (case r of [] \<Rightarrow> []
      | c # r' \<Rightarrow> if c = 123
          then concat (map (matches (Seq (ch 125) Eps)) (matches (Star (Cls (\<lambda>c. True))) (c # l, r')))
          else [])"
  by (simp add: jsonObjectRegex_def ch_def split: list.splits)

lemma split_last_occurrence:
  assumes "x \<in> set r"
  shows "\<exists>u v. r = u @ x # v \<and> x \<notin> set v"
  using assms by (rule split_list_last)

lemma exec_json_no_close: "125 \<notin> set r \<Longrightarrow> exec jsonObjectRegex l r = None"
proof (induction r arbitrary: l)
  case Nil
  show ?case by (simp add: jsonObjectRegex_unfold)
next
  case (Cons c r)
  then show ?case
    by (simp add: jsonObjectRegex_unfold body_no_close del: matches.simps)
qed

lemma exec_json_no_open: "123 \<notin> set r \<Longrightarrow> exec jsonObjectRegex l r = None"
proof (induction r arbitrary: l)
  case Nil
  show ?case by (simp add: jsonObjectRegex_unfold)
next
  case (Cons c r)
  then show ?case
    by (simp add: jsonObjectRegex_unfold del: matches.simps)
qed

lemma exec_json_skip:
  "123 \<notin> set pre \<Longrightarrow> exec jsonObjectRegex l (pre @ r) = exec jsonObjectRegex (rev pre @ l) r"
proof (induction pre arbitrary: l)
  case Nil
  show ?case by simp
next
  case (Cons c pre)
  then show ?case
    by (simp add: jsonObjectRegex_unfold del: matches.simps)
qed

lemma rev_dropWhile_last:
  assumes "x \<notin> set v"
  shows "rev (dropWhile (\<lambda>c. c \<noteq> x) (rev (u @ x # v))) = u @ [x]"
proof -
  have "dropWhile (\<lambda>c. c \<noteq> x) (rev v @ x # rev u) = x # rev u"
    using assms by (auto simp: dropWhile_append)
  then show ?thesis by simp
qed

lemma dropWhile_skip: "x \<notin> set a \<Longrightarrow> dropWhile (\<lambda>c. c \<noteq> x) (a @ s) = dropWhile (\<lambda>c. c \<noteq> x) s"
  by (induction a) auto

lemma match0_jsonObjectRegex: "match0 jsonObjectRegex s = braceSpan s"
proof (cases "123 \<in> set s")
  case False
  then have dw: "dropWhile (\<lambda>c. c \<noteq> 123) s = []" by (auto simp: dropWhile_eq_Nil_conv)
  have "braceSpan s = None" unfolding braceSpan_def dw by simp
  with False show ?thesis by (simp add: match0_def exec_json_no_open)
next
  case True
  then obtain pre r where s: "s = pre @ 123 # r" and pre: "123 \<notin> set pre"
    by (meson split_list_first)
  have dw: "dropWhile (\<lambda>c. c \<noteq> 123) s = 123 # r"
    using pre by (simp add: s dropWhile_skip)
  have ex: "exec jsonObjectRegex [] s = exec jsonObjectRegex (rev pre) (123 # r)"
    using exec_json_skip[OF pre, of "[]" "123 # r"] by (simp add: s)
  show ?thesis
  proof (cases "125 \<in> set r")
    case False
    then have "exec jsonObjectRegex (123 # rev pre) r = None" by (rule exec_json_no_close)
    with False have "exec jsonObjectRegex (rev pre) (123 # r) = None"
      by (simp add: jsonObjectRegex_unfold body_no_close del: matches.simps)
    with ex False dw show ?thesis by (simp add: match0_def braceSpan_def)
  next
    case True
    then obtain u v where r: "r = u @ 125 # v" and v: "125 \<notin> set v"
      by (meson split_list_last)
    from body_last_close[OF v, of "123 # rev pre" u] obtain rest where
      "concat (map (matches (Seq (ch 125) Eps)) (matches (Star (Cls (\<lambda>c. True))) (123 # rev pre, u @ 125 # v)))
           = (125 # rev u @ 123 # rev pre, v) # rest"
      by blast
    then have "exec jsonObjectRegex (rev pre) (123 # r)
        = Some ((rev pre, 123 # r), (125 # rev u @ 123 # rev pre, v))"
      by (simp add: jsonObjectRegex_unfold r del: matches.simps)
    with ex have "match0 jsonObjectRegex s = Some (123 # u @ [125])"
      by (simp add: match0_def matched_def r)
    moreover have "braceSpan s = Some (123 # u @ [125])"
      using True dw rev_dropWhile_last[OF v, of u] by (simp add: braceSpan_def r)
    ultimately show ?thesis by simp
  qed
qed

text \<open>Trimming does not move the first \<open>{\<close> or the last \<open>}\<close>.\<close>

lemma trim_decompose:
  "\<exists>a b. s = a @ trim s @ b \<and> (\<forall>x \<in> set a. isSpace x) \<and> (\<forall>x \<in> set b. isSpace x)"
proof -
  define t where "t = dropWhile isSpace s"
  have 1: "s = takeWhile isSpace s @ t" by (simp add: t_def)
  have "rev (takeWhile isSpace (rev t) @ dropWhile isSpace (rev t)) = rev (rev t)"
    by (simp only: takeWhile_dropWhile_id)
  then have "rev (dropWhile isSpace (rev t)) @ rev (takeWhile isSpace (rev t)) = t"
    by (simp only: rev_append rev_rev_ident)
  then have 2: "t = trim s @ rev (takeWhile isSpace (rev t))"
    by (simp only: trim_def t_def)
  have "s = takeWhile isSpace s @ trim s @ rev (takeWhile isSpace (rev t))"
    using 1 2 by simp
  moreover have "\<forall>x \<in> set (takeWhile isSpace s). isSpace x" by (auto dest: set_takeWhileD)
  moreover have "\<forall>x \<in> set (rev (takeWhile isSpace (rev t))). isSpace x" by (auto dest: set_takeWhileD)
  ultimately show ?thesis by blast
qed

lemma braceSpan_prefix: "123 \<notin> set a \<Longrightarrow> braceSpan (a @ s) = braceSpan s"
  by (simp add: braceSpan_def dropWhile_skip)

lemma braceSpan_suffix:
  assumes "123 \<notin> set b" "125 \<notin> set b"
  shows "braceSpan (s @ b) = braceSpan s"
proof (cases "123 \<in> set s")
  case False
  with assms have "dropWhile (\<lambda>c. c \<noteq> 123) (s @ b) = []" "dropWhile (\<lambda>c. c \<noteq> 123) s = []"
    by (auto simp: dropWhile_eq_Nil_conv)
  then show ?thesis by (simp only: braceSpan_def list.case)
next
  case True
  then obtain pre r where s: "s = pre @ 123 # r" and pre: "123 \<notin> set pre"
    by (meson split_list_first)
  have dw: "dropWhile (\<lambda>c. c \<noteq> 123) s = 123 # r" "dropWhile (\<lambda>c. c \<noteq> 123) (s @ b) = 123 # r @ b"
    using pre by (simp_all add: s dropWhile_skip)
  show ?thesis
  proof (cases "125 \<in> set r")
    case False
    with assms dw show ?thesis by (simp add: braceSpan_def)
  next
    case True
    then obtain u v where r: "r = u @ 125 # v" and v: "125 \<notin> set v"
      by (meson split_list_last)
    from v assms have vb: "125 \<notin> set (v @ b)" by simp
    from rev_dropWhile_last[OF vb, of u] rev_dropWhile_last[OF v, of u] dw True
    show ?thesis by (simp add: braceSpan_def r)
  qed
qed

lemma braceSpan_trim: "braceSpan (trim s) = braceSpan s"
proof -
  obtain a b where s: "s = a @ trim s @ b" and a: "\<forall>x \<in> set a. isSpace x" and b: "\<forall>x \<in> set b. isSpace x"
    using trim_decompose by blast
  have ns: "\<not> isSpace 123" "\<not> isSpace 125" by (simp_all add: isSpace_def)
  from a b ns have "123 \<notin> set a" "123 \<notin> set b" "125 \<notin> set b" by auto
  then have "braceSpan (a @ trim s @ b) = braceSpan (trim s)"
    using braceSpan_prefix[of a "trim s @ b"] braceSpan_suffix[of b "trim s"] by simp
  with s show ?thesis by simp
qed

section \<open>Whole words\<close>

lemma matches_WordB: "matches WordB p = (if boundary p then [p] else [])"
  by (cases p) (simp add: boundary_def)

lemma concat_map_if_Nil: "concat (map (\<lambda>x. if P x then [f x] else []) xs) = map f (filter P xs)"
  by (induction xs) auto

lemma matches_wordRegex:
  "matches (wordRegex ws) (l, r) =
     (if boundary (l, r)
      then filter boundary
             (map (\<lambda>w. (rev (take (length w) r) @ l, drop (length w) r)) (filter (\<lambda>w. prefixCI w r) ws))
      else [])"
proof -
  have a: "matches (alts (map liti ws)) (l, r)
      = map (\<lambda>w. (rev (take (length w) r) @ l, drop (length w) r)) (filter (\<lambda>w. prefixCI w r) ws)"
    by (simp add: matches_alts matches_liti comp_def concat_map_if_Nil del: matches.simps)
  have b: "concat (map (matches (Seq WordB Eps)) ps) = filter boundary ps" for ps
    by (induction ps) (simp_all add: matches_Seq_Eps matches_WordB del: matches.simps)
  have "matches (wordRegex ws) (l, r) =
      concat (map (\<lambda>p. concat (map (matches (Seq WordB Eps)) (matches (alts (map liti ws)) p)))
        (matches WordB (l, r)))"
    by (simp add: wordRegex_def)
  then show ?thesis
    by (simp add: matches_WordB a b del: matches.simps)
qed

lemma isWord_asciiUpper: "asciiUpper x = asciiUpper c \<Longrightarrow> isWord c \<Longrightarrow> isWord x"
  by (auto simp: asciiUpper_def isWord_def isDigit_def split: if_splits)

lemma prefixCI_hd:
  assumes "prefixCI w r" "wordy w"
  shows "r \<noteq> [] \<and> isWord (hd r) \<and> take (length w) r \<noteq> [] \<and> isWord (last (take (length w) r))"
proof -
  from assms have w: "w \<noteq> []" and len: "length w \<le> length r"
    and eq: "map asciiUpper (take (length w) r) = map asciiUpper w"
    by (auto simp: prefixCI_def wordy_def)
  from w len have r: "r \<noteq> []" and t: "take (length w) r \<noteq> []" by auto
  from eq have "hd (map asciiUpper (take (length w) r)) = hd (map asciiUpper w)" by simp
  with t w have "asciiUpper (hd (take (length w) r)) = asciiUpper (hd w)"
    by (simp add: hd_map)
  moreover from t r have "hd (take (length w) r) = hd r" by (cases r) (auto simp: take_Cons')
  ultimately have h: "isWord (hd r)" using assms(2) isWord_asciiUpper by (auto simp: wordy_def)
  from eq have "last (map asciiUpper (take (length w) r)) = last (map asciiUpper w)" by simp
  with t w have "asciiUpper (last (take (length w) r)) = asciiUpper (last w)"
    by (simp add: last_map)
  with assms(2) isWord_asciiUpper have "isWord (last (take (length w) r))"
    by (auto simp: wordy_def)
  with r t h show ?thesis by simp
qed

lemma matches_wordRegex_nonempty:
  assumes "\<forall>w \<in> set ws. wordy w"
  shows "matches (wordRegex ws) (rev before, after) \<noteq> [] \<longleftrightarrow> (\<exists>w \<in> set ws. wholeWordAt w before after)"
proof -
  have key: "boundary (rev before, after) \<and> boundary (rev (take (length w) after) @ rev before, drop (length w) after)
      \<longleftrightarrow> \<not> (before \<noteq> [] \<and> isWord (last before))
        \<and> \<not> (drop (length w) after \<noteq> [] \<and> isWord (hd (drop (length w) after)))"
    if w: "w \<in> set ws" and p: "prefixCI w after" for w
  proof -
    from assms w have "wordy w" by blast
    from prefixCI_hd[OF p this] have a: "after \<noteq> []" "isWord (hd after)"
      and t: "take (length w) after \<noteq> []" "isWord (last (take (length w) after))"
      by auto
    have 1: "boundary (rev before, after) \<longleftrightarrow> \<not> (before \<noteq> [] \<and> isWord (last before))"
      using a by (cases after; cases before rule: rev_cases) (auto simp: boundary_def)
    from t(1) obtain ys y where ys: "take (length w) after = ys @ [y]"
      by (cases "take (length w) after" rule: rev_cases) auto
    with t(2) have y: "isWord y" by simp
    have "boundary (rev (ys @ [y]) @ rev before, drop (length w) after)
        \<longleftrightarrow> \<not> (drop (length w) after \<noteq> [] \<and> isWord (hd (drop (length w) after)))"
      using y by (cases "drop (length w) after") (auto simp: boundary_def)
    then have 2: "boundary (rev (take (length w) after) @ rev before, drop (length w) after)
        \<longleftrightarrow> \<not> (drop (length w) after \<noteq> [] \<and> isWord (hd (drop (length w) after)))"
      by (simp only: ys)
    from 1 2 show ?thesis by simp
  qed
  show ?thesis
  proof
    assume "matches (wordRegex ws) (rev before, after) \<noteq> []"
    then obtain w where "w \<in> set ws" "prefixCI w after" "boundary (rev before, after)"
      "boundary (rev (take (length w) after) @ rev before, drop (length w) after)"
      by (auto simp: matches_wordRegex filter_empty_conv split: if_splits)
    with key[of w] show "\<exists>w \<in> set ws. wholeWordAt w before after"
      by (auto simp: wholeWordAt_def)
  next
    assume "\<exists>w \<in> set ws. wholeWordAt w before after"
    then obtain w where w: "w \<in> set ws" "prefixCI w after"
      "\<not> (before \<noteq> [] \<and> isWord (last before))"
      "\<not> (drop (length w) after \<noteq> [] \<and> isWord (hd (drop (length w) after)))"
      by (auto simp: wholeWordAt_def)
    with key[of w] have "boundary (rev before, after)"
      "boundary (rev (take (length w) after) @ rev before, drop (length w) after)"
      by auto
    with w(1,2) show "matches (wordRegex ws) (rev before, after) \<noteq> []"
      by (auto simp: matches_wordRegex filter_empty_conv)
  qed
qed

lemma bex_upt_Suc: "(\<exists>k \<in> set [0..<Suc n]. P k) \<longleftrightarrow> (\<exists>k \<le> n. P k)"
proof -
  have "set [0..<Suc n] = {k. k \<le> n}" by (auto simp del: upt_Suc)
  then show ?thesis by (simp only: Bex_def mem_Collect_eq)
qed

lemma test_wordRegex:
  assumes "\<forall>w \<in> set ws. wordy w"
  shows "test (wordRegex ws) s \<longleftrightarrow> (\<exists>w \<in> set ws. containsWord w s)"
proof -
  have "test (wordRegex ws) s \<longleftrightarrow> (\<exists>k \<le> length s. matches (wordRegex ws) (rev (take k s), drop k s) \<noteq> [])"
    using exec_None_iff[of "wordRegex ws" "[]" s] by (auto simp: test_def)
  also have "\<dots> \<longleftrightarrow> (\<exists>k \<le> length s. \<exists>w \<in> set ws. wholeWordAt w (take k s) (drop k s))"
    using matches_wordRegex_nonempty[OF assms] by simp
  also have "\<dots> \<longleftrightarrow> (\<exists>w \<in> set ws. containsWord w s)"
    unfolding containsWord_def bex_upt_Suc by blast
  finally show ?thesis .
qed

lemma wordy_questionWords: "\<forall>w \<in> set questionWords. wordy w"
  by (simp add: questionWords_def wordy_def js_def isWord_def isDigit_def)

lemma test_questionWordRegex: "test questionWordRegex line = hasQuestionWord line"
  using test_wordRegex[OF wordy_questionWords, of line]
  by (simp add: questionWordRegex_def wordRegex_def hasQuestionWord_def)

section \<open>The numbering prefix\<close>

lemma matches_Plus_Cls:
  "matches (Plus (Cls p)) (l, r) =
     (case r of [] \<Rightarrow> [] | c # r' \<Rightarrow> if p c then matches (Star (Cls p)) (c # l, r') else [])"
  by (simp add: Plus_def split: list.splits)

lemma matches_Plus_Cls_then:
  assumes "\<And>l c r. p c \<Longrightarrow> f (l, c # r) = []"
  shows "concat (map f (matches (Plus (Cls p)) (l, r))) =
     (if takeWhile p r = [] then [] else f (rev (takeWhile p r) @ l, dropWhile p r))"
proof (cases r)
  case Nil
  then show ?thesis by (simp add: matches_Plus_Cls)
next
  case (Cons c r')
  show ?thesis
  proof (cases "p c")
    case True
    with Cons matches_Star_Cls_then[of p f "c # l" r', OF assms] show ?thesis
      by (simp add: matches_Plus_Cls del: matches.simps)
  next
    case False
    with Cons show ?thesis by (simp add: matches_Plus_Cls)
  qed
qed

lemma matches_Plus_Cls_hd:
  "takeWhile p r \<noteq> [] \<Longrightarrow>
     \<exists>rest. matches (Plus (Cls p)) (l, r) = (rev (takeWhile p r) @ l, dropWhile p r) # rest"
proof (cases r)
  case Nil
  assume "takeWhile p r \<noteq> []"
  with Nil show ?thesis by simp
next
  case (Cons c r')
  assume "takeWhile p r \<noteq> []"
  with Cons have pc: "p c" by (auto split: if_splits)
  from matches_Star_Cls_hd[of p "c # l" r'] obtain rest where
    "matches (Star (Cls p)) (c # l, r') = (rev (takeWhile p r') @ c # l, dropWhile p r') # rest"
    by blast
  with Cons pc show ?thesis by (simp add: matches_Plus_Cls del: matches.simps)
qed

lemma matches_Plus_Cls_Nil: "takeWhile p r = [] \<Longrightarrow> matches (Plus (Cls p)) (l, r) = []"
  by (cases r) (auto simp: matches_Plus_Cls split: if_splits)

lemma matches_Star_Cls_last_hd:
  "\<exists>rest. matches (Seq (Star (Cls p)) Eps) (l, r) = (rev (takeWhile p r) @ l, dropWhile p r) # rest"
  using matches_Star_Cls_hd[of p l r] by (simp only: matches_Seq_Eps)

lemma replace_numberPrefixRegex: "replace numberPrefixRegex [] line = stripNumberPrefix line"
proof -
  define R3 where "R3 = Seq (Star (Cls isSpace)) Eps"
  define R2 where "R2 = Seq (Cls (\<lambda>c. c = 46 \<or> c = 41)) R3"
  have re: "numberPrefixRegex = Seq Bol (Seq (Plus (Cls isDigit)) R2)"
    by (simp add: numberPrefixRegex_def R2_def R3_def)
  have r2: "matches R2 (l, r) =
      (case r of [] \<Rightarrow> [] | x # r' \<Rightarrow> if x = 46 \<or> x = 41 then matches R3 (x # l, r') else [])" for l r
    by (simp add: R2_def split: list.splits)
  have dis: "matches R2 (l, c # r) = []" if "isDigit c" for l c r
    using that by (auto simp: r2 isDigit_def)
  have m: "matches (Seq (Plus (Cls isDigit)) R2) ([], line) =
      (if takeWhile isDigit line = [] then []
       else matches R2 (rev (takeWhile isDigit line), dropWhile isDigit line))"
    using matches_Plus_Cls_then[of isDigit "matches R2" "[]" line, OF dis] by simp
  show ?thesis
  proof (cases "takeWhile isDigit line = []")
    case True
    with m show ?thesis
      by (simp add: re replace_Bol stripNumberPrefix_def split: list.splits del: matches.simps)
  next
    case False
    show ?thesis
    proof (cases "dropWhile isDigit line")
      case Nil
      have "stripNumberPrefix line = line" unfolding stripNumberPrefix_def Nil by simp
      moreover have "matches (Seq (Plus (Cls isDigit)) R2) ([], line) = []"
        unfolding m r2 Nil using False by simp
      ultimately show ?thesis
        by (simp add: re replace_Bol del: matches.simps)
    next
      case (Cons x rest)
      show ?thesis
      proof (cases "x = 46 \<or> x = 41")
        case True
        from matches_Star_Cls_last_hd[of isSpace "x # rev (takeWhile isDigit line)" rest]
        obtain more where "matches R3 (x # rev (takeWhile isDigit line), rest)
            = (rev (takeWhile isSpace rest) @ x # rev (takeWhile isDigit line), dropWhile isSpace rest) # more"
          unfolding R3_def by blast
        with m False Cons True show ?thesis
          by (simp add: re replace_Bol stripNumberPrefix_def r2 del: matches.simps)
      next
        case False
        with m \<open>takeWhile isDigit line \<noteq> []\<close> Cons show ?thesis
          by (simp add: re replace_Bol stripNumberPrefix_def r2 del: matches.simps)
      qed
    qed
  qed
qed

section \<open>The first match of a pattern\<close>

lemma firstIs_Seq: "firstIs a p q \<Longrightarrow> firstIs b q e \<Longrightarrow> firstIs (Seq a b) p e"
  by (cases p) (auto simp: firstIs_def)

lemma firstIs_Eps: "firstIs Eps p p"
  by (cases p) (simp add: firstIs_def)

lemma firstIs_Star_Cls: "firstIs (Star (Cls c)) (l, r) (rev (takeWhile c r) @ l, dropWhile c r)"
  unfolding firstIs_def by (rule matches_Star_Cls_hd)

lemma firstIs_Plus_Cls:
  "takeWhile c r \<noteq> [] \<Longrightarrow> firstIs (Plus (Cls c)) (l, r) (rev (takeWhile c r) @ l, dropWhile c r)"
  unfolding firstIs_def by (rule matches_Plus_Cls_hd)

lemma firstIs_Opt_ch:
  "firstIs (Opt (ch x)) (l, r) (rev (take (length r - length (dropOne x r)) r) @ l, dropOne x r)"
  by (cases r) (auto simp: firstIs_def Opt_def ch_def dropOne_def)

lemma replace_Bol_first: "firstIs re ([], s) e \<Longrightarrow> replace (Seq Bol re) rep s = rep @ snd e"
  by (auto simp: replace_Bol firstIs_def)

lemma replace_Bol_none: "matches re ([], s) = [] \<Longrightarrow> replace (Seq Bol re) rep s = s"
  by (simp add: replace_Bol)

section \<open>The looser numbering prefix\<close>

lemma replace_looseNumberPrefixRegex: "replace looseNumberPrefixRegex [] s = stripNumbering s"
proof -
  define R where "R = Seq (Opt (ch 46)) (Seq (Opt (ch 41)) (Seq (Star (Cls isSpace)) Eps))"
  have re: "looseNumberPrefixRegex = Seq Bol (Seq (Plus (Cls isDigit)) R)"
    by (simp add: looseNumberPrefixRegex_def R_def)
  show ?thesis
  proof (cases "takeWhile isDigit s = []")
    case True
    then have "matches (Seq (Plus (Cls isDigit)) R) ([], s) = []"
      by (simp add: matches_Plus_Cls_Nil del: matches.simps(1,7))
    with True show ?thesis
      unfolding re by (simp add: replace_Bol_none stripNumbering_def)
  next
    case False
    define p1 where "p1 = (rev (takeWhile isDigit s), dropWhile isDigit s)"
    define r2 where "r2 = dropOne 46 (snd p1)"
    define r3 where "r3 = dropOne 41 r2"
    have 1: "firstIs (Plus (Cls isDigit)) ([], s) p1"
      using firstIs_Plus_Cls[OF False, of "[]"] by (simp add: p1_def)
    obtain l2 where 2: "firstIs (Opt (ch 46)) p1 (l2, r2)"
      using firstIs_Opt_ch[of 46 "fst p1" "snd p1"] by (auto simp: r2_def)
    obtain l3 where 3: "firstIs (Opt (ch 41)) (l2, r2) (l3, r3)"
      using firstIs_Opt_ch[of 41 l2 r2] by (auto simp: r3_def)
    have 4: "firstIs (Seq (Star (Cls isSpace)) Eps) (l3, r3) (rev (takeWhile isSpace r3) @ l3, dropWhile isSpace r3)"
      by (intro firstIs_Seq[OF firstIs_Star_Cls] firstIs_Eps)
    have "firstIs (Seq (Plus (Cls isDigit)) R) ([], s) (rev (takeWhile isSpace r3) @ l3, dropWhile isSpace r3)"
      unfolding R_def by (intro firstIs_Seq[OF 1] firstIs_Seq[OF 2] firstIs_Seq[OF 3] 4)
    from replace_Bol_first[OF this, of "[]"] False show ?thesis
      unfolding re by (simp add: stripNumbering_def r3_def r2_def p1_def)
  qed
qed

section \<open>The label\<close>

lemma matches_alts_liti:
  "matches (alts (map liti ws)) (l, r)
      = map (\<lambda>w. (rev (take (length w) r) @ l, drop (length w) r)) (filter (\<lambda>w. prefixCI w r) ws)"
  by (simp add: matches_alts matches_liti comp_def concat_map_if_Nil del: matches.simps)

lemma filter_find_None: "find P xs = None \<Longrightarrow> filter P xs = []"
  by (induction xs) (auto split: if_splits)

lemma filter_find_Some: "find P xs = Some x \<Longrightarrow> \<exists>rest. filter P xs = x # rest"
  by (induction xs) (auto split: if_splits)

lemma replace_dashLabelRegex: "replace dashLabelRegex [] s = stripLabel s"
proof -
  define sep where "sep = (\<lambda>c. c = 58 \<or> isSpace c \<or> c = 45)"
  define R where "R = Seq (Star (Cls sep)) Eps"
  have re: "dashLabelRegex = Seq Bol (Seq (alts (map liti labels)) R)"
    by (simp add: dashLabelRegex_def R_def sep_def labels_def)
  show ?thesis
  proof (cases "find (\<lambda>w. prefixCI w s) labels")
    case None
    then have "matches (alts (map liti labels)) ([], s) = []"
      by (simp add: matches_alts_liti filter_find_None del: matches.simps)
    then have "matches (Seq (alts (map liti labels)) R) ([], s) = []"
      by (simp del: matches.simps(1,7))
    with None show ?thesis
      unfolding re by (simp add: replace_Bol_none stripLabel_def)
  next
    case (Some w)
    from filter_find_Some[OF this] obtain rest where "filter (\<lambda>w. prefixCI w s) labels = w # rest"
      by blast
    then have 1: "firstIs (alts (map liti labels)) ([], s) (rev (take (length w) s), drop (length w) s)"
      by (simp add: firstIs_def matches_alts_liti del: matches.simps)
    have 2: "firstIs R (rev (take (length w) s), drop (length w) s)
        (rev (takeWhile sep (drop (length w) s)) @ rev (take (length w) s), dropWhile sep (drop (length w) s))"
      unfolding R_def by (intro firstIs_Seq[OF firstIs_Star_Cls] firstIs_Eps)
    from replace_Bol_first[OF firstIs_Seq[OF 1 2], of "[]"] Some show ?thesis
      unfolding re by (simp add: stripLabel_def sep_def)
  qed
qed

section \<open>Collapsing white space\<close>

lemma exec_Plus_Cls:
  "exec (Plus (Cls p)) l r =
     (case dropWhile (\<lambda>c. \<not> p c) r of
        [] \<Rightarrow> None
      | c # r' \<Rightarrow>
          Some ((rev (takeWhile (\<lambda>c. \<not> p c) r) @ l, c # r'),
                (rev (takeWhile p (c # r')) @ rev (takeWhile (\<lambda>c. \<not> p c) r) @ l,
                 dropWhile p (c # r'))))"
proof (induction r arbitrary: l)
  case Nil
  show ?case by (simp add: matches_Plus_Cls)
next
  case (Cons c r)
  show ?case
  proof (cases "p c")
    case True
    then have "takeWhile p (c # r) \<noteq> []" by simp
    from matches_Plus_Cls_hd[OF this, of l] obtain rest where
      "matches (Plus (Cls p)) (l, c # r) = (rev (takeWhile p (c # r)) @ l, dropWhile p (c # r)) # rest"
      by blast
    with True show ?thesis by simp
  next
    case False
    then have "matches (Plus (Cls p)) (l, c # r) = []" by (simp add: matches_Plus_Cls)
    with False Cons[of "c # l"] show ?thesis
      by (cases "dropWhile (\<lambda>c. \<not> p c) r") (simp_all del: dropWhile_eq_Nil_conv)
  qed
qed

lemma collapseSpaces_no_space: "\<forall>x \<in> set s. \<not> isSpace x \<Longrightarrow> collapseSpaces (s @ t) = s @ collapseSpaces t"
  by (induction s) auto

lemma replaceAll_spacesRegex: "replaceAll spacesRegex (js '' '') l r = collapseSpaces r"
proof (induction "length r" arbitrary: l r rule: less_induct)
  case less
  show ?case
  proof (cases "dropWhile (\<lambda>c. \<not> isSpace c) r")
    case Nil
    then have ex: "exec spacesRegex l r = None"
      by (simp add: spacesRegex_def exec_Plus_Cls del: dropWhile_eq_Nil_conv)
    from Nil have "\<forall>x \<in> set r. \<not> isSpace x" by (simp add: dropWhile_eq_Nil_conv)
    from collapseSpaces_no_space[OF this, of "[]"] have "collapseSpaces r = r" by simp
    with ex show ?thesis by (subst replaceAll.simps) simp
  next
    case (Cons c r')
    define pre where "pre = takeWhile (\<lambda>c. \<not> isSpace c) r"
    have r: "r = pre @ c # r'"
      using Cons takeWhile_dropWhile_id[of "\<lambda>c. \<not> isSpace c" r] by (simp add: pre_def)
    have c: "isSpace c"
      using hd_dropWhile[of "\<lambda>c. \<not> isSpace c" r] Cons by simp
    have ex: "exec spacesRegex l r =
        Some ((rev pre @ l, c # r'), (rev (takeWhile isSpace (c # r')) @ rev pre @ l, dropWhile isSpace r'))"
      using Cons c by (simp add: spacesRegex_def exec_Plus_Cls pre_def)
    have len: "length (dropWhile isSpace r') < length r"
      using length_dropWhile_le[of isSpace r'] by (simp add: r)
    have m: "matched (l, r) (rev pre @ l, c # r') = pre"
      by (simp add: matched_def r)
    have "replaceAll spacesRegex (js '' '') l r
        = pre @ js '' '' @ replaceAll spacesRegex (js '' '')
            (rev (takeWhile isSpace (c # r')) @ rev pre @ l) (dropWhile isSpace r')"
      using length_dropWhile_le[of isSpace r']
      by (subst replaceAll.simps) (simp add: ex m less_Suc_eq_le)
    also have "\<dots> = pre @ js '' '' @ collapseSpaces (dropWhile isSpace r')"
      using less[OF len] by simp
    also have "\<dots> = pre @ collapseSpaces (c # r')"
      using c by (simp add: js_def)
    also have "\<dots> = collapseSpaces r"
    proof -
      have "\<forall>x \<in> set pre. \<not> isSpace x" by (auto simp: pre_def dest: set_takeWhileD)
      from collapseSpaces_no_space[OF this, of "c # r'"] show ?thesis by (simp only: r)
    qed
    finally show ?thesis .
  qed
qed

section \<open>The first sentence\<close>

lemma exec_Cls:
  "exec (Cls p) l r =
     (case dropWhile (\<lambda>c. \<not> p c) r of
        [] \<Rightarrow> None
      | c # r' \<Rightarrow>
          Some ((rev (takeWhile (\<lambda>c. \<not> p c) r) @ l, c # r'),
                (c # rev (takeWhile (\<lambda>c. \<not> p c) r) @ l, r')))"
proof (induction r arbitrary: l)
  case Nil
  show ?case by simp
next
  case (Cons c r)
  from Cons[of "c # l"] show ?case
    by (cases "dropWhile (\<lambda>c. \<not> p c) r") (simp_all del: dropWhile_eq_Nil_conv)
qed

lemma sentence_cut:
  "(let sentenceEnd = search sentenceEndRegex s
    in if sentenceEnd \<noteq> - 1 then trim (take (nat (sentenceEnd + 1)) s) else s)
   = (if \<exists>c \<in> set s. c = 46 \<or> c = 33 then trim (cutAfterSentenceEnd s) else s)"
proof (cases "dropWhile (\<lambda>c. \<not> (c = 46 \<or> c = 33)) s")
  case Nil
  then have no: "\<not> (\<exists>c \<in> set s. c = 46 \<or> c = 33)" by (auto simp: dropWhile_eq_Nil_conv)
  have "search sentenceEndRegex s = - 1"
    unfolding search_def sentenceEndRegex_def exec_Cls Nil by simp
  with no show ?thesis by simp
next
  case (Cons c r)
  define pre where "pre = takeWhile (\<lambda>c. \<not> (c = 46 \<or> c = 33)) s"
  have s: "s = pre @ c # r"
    using Cons takeWhile_dropWhile_id[of "\<lambda>c. \<not> (c = 46 \<or> c = 33)" s] by (simp add: pre_def)
  have c: "c = 46 \<or> c = 33"
    by (metis (mono_tags, lifting) Cons hd_dropWhile list.sel(1) list.distinct(1))
  then have yes: "\<exists>c \<in> set s. c = 46 \<or> c = 33" by (auto simp: s)
  have "search sentenceEndRegex s = int (length pre)"
    unfolding search_def sentenceEndRegex_def exec_Cls Cons by (simp add: pre_def)
  moreover have "take (Suc (length pre)) s = pre @ [c]" by (simp add: s)
  moreover have "cutAfterSentenceEnd s = pre @ [c]"
    unfolding cutAfterSentenceEnd_def Cons by (simp add: pre_def)
  ultimately show ?thesis using yes by (simp add: nat_add_distrib Let_def)
qed

section \<open>The connectors\<close>

lemma index0_splitLoop:
  assumes "\<And>p e. e \<in> set (matches re p) \<Longrightarrow> length (snd e) < length (snd p)"
  shows "index0 (splitLoop re piece (l, r)) = Some (rev piece @ untilMatch re l r)"
proof (induction r arbitrary: piece l)
  case Nil
  show ?case by (simp add: index0_def)
next
  case (Cons c r)
  show ?case
  proof (cases "matches re (l, c # r)")
    case Nil
    with Cons[of "c # piece" "c # l"] show ?thesis by simp
  next
    case (Cons e es)
    then have "e \<in> set (matches re (l, c # r))" by simp
    from assms[OF this] have "length (snd e) \<noteq> length (c # r)" by simp
    with Cons show ?thesis by (simp add: index0_def)
  qed
qed

lemma index0_splitRe:
  assumes "\<And>p e. e \<in> set (matches re p) \<Longrightarrow> length (snd e) < length (snd p)"
  shows "index0 (splitRe re s) = Some (untilMatch re [] s)"
proof (cases "s = []")
  case True
  have "matches re ([], []) = []"
  proof (cases "matches re ([], [])")
    case (Cons e es)
    then have "e \<in> set (matches re ([], []))" by simp
    from assms[OF this] show ?thesis by simp
  qed simp
  with True show ?thesis by (simp add: splitRe_def index0_def)
next
  case False
  with index0_splitLoop[of re "[]" "[]" s, OF assms] show ?thesis by (simp add: splitRe_def)
qed

lemma wordRegex_consumes:
  assumes "\<forall>w \<in> set ws. wordy w" "e \<in> set (matches (wordRegex ws) p)"
  shows "length (snd e) < length (snd p)"
proof -
  obtain l r where p: "p = (l, r)" by (cases p)
  from assms(2) obtain w where w: "w \<in> set ws" "prefixCI w r" and e: "e = (rev (take (length w) r) @ l, drop (length w) r)"
    unfolding p matches_wordRegex by (auto split: if_splits)
  from assms(1) w prefixCI_hd[of w r] have "w \<noteq> []" "r \<noteq> []" by (auto simp: wordy_def)
  then show ?thesis by (simp add: p e)
qed

lemma untilMatch_wordRegex:
  assumes "\<forall>w \<in> set ws. wordy w"
  shows "untilMatch (wordRegex ws) (rev before) r
     = (if r = [] then [] else if \<exists>w \<in> set ws. wholeWordAt w before r then []
        else hd r # untilMatch (wordRegex ws) (rev (before @ [hd r])) (tl r))"
  using matches_wordRegex_nonempty[OF assms, of before r]
  by (cases r) (simp_all del: matches.simps)

lemma wordy_connectors: "\<forall>w \<in> set connectors. wordy w"
  by (simp add: connectors_def wordy_def js_def isWord_def isDigit_def)

lemma untilMatch_connectorRegex:
  "untilMatch connectorRegex (rev before) r = beforeConnector before r"
proof (induction r arbitrary: before)
  case Nil
  show ?case by simp
next
  case (Cons c r)
  have re: "connectorRegex = wordRegex connectors"
    by (simp add: connectorRegex_def wordRegex_def)
  from Cons[of "before @ [c]"] untilMatch_wordRegex[OF wordy_connectors, of before "c # r"]
  show ?case unfolding re by (simp del: untilMatch.simps)
qed

lemma firstPiece_connectorRegex:
  "firstPiece (splitRe connectorRegex s) = Inr (trim (cutAtConnector s))"
proof -
  have re: "connectorRegex = wordRegex connectors"
    by (simp add: connectorRegex_def wordRegex_def)
  have "index0 (splitRe connectorRegex s) = Some (untilMatch connectorRegex [] s)"
    unfolding re by (rule index0_splitRe) (rule wordRegex_consumes[OF wordy_connectors])
  with untilMatch_connectorRegex[of "[]" s] show ?thesis
    by (simp add: firstPiece_def cutAtConnector_def)
qed

section \<open>The shape of the result\<close>

text \<open>
  Claim C1 says that every result of \<open>parseModelQuestion\<close> is non-empty, trimmed and ends
  with exactly one \<open>?\<close>, with no other \<open>?\<close> in it. The function returns the \<open>question\<close>
  field of a JSON object as it stands, only trimmed, and it keeps a candidate line that
  starts with \<open>?\<close> whole: on \<open>{"question":"Why? Why not"}\<close> the result is
  \<open>Why? Why not\<close>, and on \<open>??\<close> it is \<open>??\<close>.
\<close>

theorem parseModelQuestion_result_shape_counterexample:
  \<open>parseModelQuestion (Str (js ''{"question":"Why? Why not"}'')) = Inr (Some (js ''Why? Why not''))
   \<and> \<not> endsWith (js ''Why? Why not'') qmark
   \<and> parseModelQuestion (Str (js ''??'')) = Inr (Some (js ''??''))
   \<and> count_list (js ''??'') qmark = 2\<close>
  by (simp add: ev)

text \<open>
  Claim C1 as amended: every result is non-empty and equal to its own trim; a result
  that does not come from the JSON path ends with \<open>?\<close>, and when it does not start
  with \<open>?\<close> that final \<open>?\<close> is the only one in it.
\<close>

theorem parseModelQuestion_result_shape:
  assumes "parseModelQuestion arg = Inr (Some q)"
  shows "q \<noteq> [] \<and> trim q = q \<and>
         (jsonPath (trim (orEmpty arg)) = None \<longrightarrow>
            endsWith q qmark \<and> (hd q \<noteq> qmark \<longrightarrow> count_list q qmark = 1))"
proof (cases "jsonPath (trim (orEmpty arg))")
  case (Some q')
  with assms have "q = q'" by (simp add: parseModelQuestion_def)
  with Some jsonPath_shape[of "trim (orEmpty arg)" q] show ?thesis by simp
next
  case None
  with assms have fq: "fallbackQuestion (trim (orEmpty arg)) = Inr q" and ne: "q \<noteq> []"
    by (auto simp: parseModelQuestion_def split: sum.splits if_splits)
  from fallbackQuestion_shape[OF fq ne] ne show ?thesis by simp
qed

theorem parseModelQuestion_result_shape_witness:
  "parseModelQuestion (Str (js ''Why ? Why not'')) = Inr (Some (js ''Why?''))
   \<and> jsonPath (trim (orEmpty (Str (js ''Why ? Why not'')))) = None
   \<and> js ''Why?'' \<noteq> [] \<and> trim (js ''Why?'') = js ''Why?'' \<and> endsWith (js ''Why?'') qmark
   \<and> hd (js ''Why?'') \<noteq> qmark \<and> count_list (js ''Why?'') qmark = 1"
proof -
  have r: "parseModelQuestion (Str (js ''Why ? Why not'')) = Inr (Some (js ''Why?''))"
    by (simp add: ev)
  have j: "jsonPath (trim (orEmpty (Str (js ''Why ? Why not'')))) = None"
    by (simp add: ev)
  have h: "hd (js ''Why?'') \<noteq> qmark"
    by (simp add: ev)
  from parseModelQuestion_result_shape[OF r] j h r show ?thesis by simp
qed

section \<open>No exception leaves parseModelQuestion\<close>

text \<open>
  Claim C4: for every input string, \<open>parseModelQuestion\<close> returns a string or \<open>null\<close>;
  no exception leaves it. The model has an \<open>Inl\<close> branch for each place where the source
  can throw (\<open>JSON.parse\<close>, reading a property of \<open>null\<close>, \<open>trim\<close> on \<open>undefined\<close>), and
  every function of the model is total, so the result \<open>Inr\<close> is a normal return.
\<close>

theorem parseModelQuestion_never_throws:
  "\<exists>result. parseModelQuestion (Str raw) = Inr result"
proof -
  obtain question where "fallbackQuestion (trim raw) = Inr question"
    using fallbackQuestion_cases[of "trim raw"] by blast
  then show ?thesis
    by (cases "jsonPath (trim raw)") (simp_all add: parseModelQuestion_def Let_def)
qed

theorem parseModelQuestion_never_throws_witness:
  "\<exists>result. parseModelQuestion (Str (js ''{{]'')) = Inr result"
  by (rule parseModelQuestion_never_throws)

section \<open>Failure is the result null\<close>

text \<open>
  Claim C5: when the JSON path yields nothing and the final candidate \<open>question\<close> is the
  empty string or the string \<open>?\<close>, \<open>parseModelQuestion\<close> returns \<open>null\<close>; in particular
  on the empty string, on three spaces and on \<open>?\<close>. "Consists solely of \<open>?\<close>" is read
  as the source tests it, \<open>question === '?'\<close>: the one-character string.
\<close>

theorem extraction_failure_is_null:
  "(\<forall>raw question.
      jsonPath (trim raw) = None \<and> fallbackQuestion (trim raw) = Inr question
      \<and> (question = [] \<or> question = [qmark])
      \<longrightarrow> parseModelQuestion (Str raw) = Inr None)
   \<and> parseModelQuestion (Str (js '''')) = Inr None
   \<and> parseModelQuestion (Str (js ''   '')) = Inr None
   \<and> parseModelQuestion (Str (js ''?'')) = Inr None"
proof -
  have "parseModelQuestion (Str raw) = Inr None"
    if "jsonPath (trim raw) = None" "fallbackQuestion (trim raw) = Inr question"
       "question = [] \<or> question = [qmark]" for raw question
    using that by (auto simp: parseModelQuestion_def)
  moreover have "parseModelQuestion (Str (js '''')) = Inr None" by (simp add: ev)
  moreover have "parseModelQuestion (Str (js ''   '')) = Inr None" by (simp add: ev)
  moreover have "parseModelQuestion (Str (js ''?'')) = Inr None" by (simp add: ev)
  ultimately show ?thesis by blast
qed

theorem extraction_failure_is_null_witness:
  "jsonPath (trim (js '' Q: ? '')) = None \<and> fallbackQuestion (trim (js '' Q: ? '')) = Inr [qmark]
   \<and> parseModelQuestion (Str (js '' Q: ? '')) = Inr None"
proof -
  have j: "jsonPath (trim (js '' Q: ? '')) = None" by (simp add: ev)
  have f: "fallbackQuestion (trim (js '' Q: ? '')) = Inr [qmark]" by (simp add: ev)
  from extraction_failure_is_null j f show ?thesis by blast
qed

text \<open>
  Claim C10: \<open>(raw || '')\<close> turns \<open>undefined\<close>, \<open>null\<close> and the empty string into the
  empty string, and \<open>parseModelQuestion\<close> then returns \<open>null\<close> without throwing.
\<close>

theorem parseModelQuestion_missing_argument:
  "orEmpty Undefined = [] \<and> orEmpty Null = [] \<and> orEmpty (Str []) = []
   \<and> parseModelQuestion Undefined = Inr None
   \<and> parseModelQuestion Null = Inr None
   \<and> parseModelQuestion (Str []) = Inr None"
  by (simp add: ev)

section \<open>Truncation at the first question mark\<close>

text \<open>
  Claim C3 says that a candidate line with a \<open>?\<close> is always cut after its first \<open>?\<close>,
  and that a final candidate without a trailing \<open>?\<close> always gets one. The candidate
  \<open>?abc\<close> has nothing before its first \<open>?\<close>, and the source then keeps the whole line:
  the result is \<open>?abc?\<close>, not the text up to the first \<open>?\<close>. The empty candidate has no
  trailing \<open>?\<close> and gets none.
\<close>

theorem first_question_truncation_counterexample:
  "normalizeLine (pickCandidateLine (splitLines (cleanText (trim (js ''?abc''))))) = js ''?abc''
   \<and> includesChar (js ''?abc'') qmark
   \<and> takeWhile (\<lambda>x. x \<noteq> qmark) (js ''?abc'') @ [qmark] = js ''?''
   \<and> truncateAtQuestionMark (js ''?abc'') = Inr (js ''?abc'')
   \<and> parseModelQuestion (Str (js ''?abc'')) = Inr (Some (js ''?abc?''))
   \<and> \<not> endsWith [] qmark \<and> withQuestionMark [] = []"
  by (simp add: ev)

text \<open>
  Claim C3 as amended, on the path after the JSON path yielded nothing, with \<open>c\<close> the
  selected and normalized candidate line and \<open>c'\<close> the line after the truncation step:
  when \<open>c\<close> contains a \<open>?\<close> and the text before its first \<open>?\<close> is not blank, \<open>c'\<close> is
  that text, trimmed, followed by one \<open>?\<close>, and it is the result; when \<open>c'\<close> is not empty
  and lacks a trailing \<open>?\<close>, the result is \<open>c'\<close> with one \<open>?\<close> appended; and the input
  \<open>What is a REST API? Also, explain GraphQL differences?\<close> gives \<open>What is a REST API?\<close>.
\<close>

theorem first_question_truncation:
  assumes "jsonPath (trim raw) = None"
    and "c = normalizeLine (pickCandidateLine (splitLines (cleanText (trim raw))))"
    and "truncateAtQuestionMark c = Inr c'"
  shows "(includesChar c qmark \<and> trim (takeWhile (\<lambda>x. x \<noteq> qmark) c) \<noteq> []
            \<longrightarrow> c' = trim (takeWhile (\<lambda>x. x \<noteq> qmark) c) @ [qmark]
                \<and> parseModelQuestion (Str raw) = Inr (Some c'))
       \<and> (c' \<noteq> [] \<and> \<not> endsWith c' qmark
            \<longrightarrow> parseModelQuestion (Str raw) = Inr (Some (c' @ [qmark])))
       \<and> parseModelQuestion (Str (js ''What is a REST API? Also, explain GraphQL differences?''))
           = Inr (Some (js ''What is a REST API?''))"
proof -
  have fq: "fallbackQuestion (trim raw) = Inr (withQuestionMark c')"
    using assms(2,3) by (simp add: fallbackQuestion_def)
  have res: "parseModelQuestion (Str raw) =
      (if withQuestionMark c' = [] \<or> withQuestionMark c' = [qmark] then Inr None
       else Inr (Some (withQuestionMark c')))"
    using assms(1) fq by (simp add: parseModelQuestion_def)
  have a: "c' = trim (takeWhile (\<lambda>x. x \<noteq> qmark) c) @ [qmark]
      \<and> parseModelQuestion (Str raw) = Inr (Some c')"
    if "includesChar c qmark" "trim (takeWhile (\<lambda>x. x \<noteq> qmark) c) \<noteq> []"
  proof -
    from that assms(3) have c': "c' = trim (takeWhile (\<lambda>x. x \<noteq> qmark) c) @ [qmark]"
      by (simp add: truncateAtQuestionMark_eq includesChar_def)
    with that(2) have "withQuestionMark c' = c'" "c' \<noteq> [qmark]" "c' \<noteq> []"
      by (simp_all add: withQuestionMark_def)
    with res c' show ?thesis by simp
  qed
  have b: "parseModelQuestion (Str raw) = Inr (Some (c' @ [qmark]))"
    if "c' \<noteq> []" "\<not> endsWith c' qmark"
  proof -
    from that have "withQuestionMark c' = c' @ [qmark]" by (simp add: withQuestionMark_def)
    with res that(1) show ?thesis by simp
  qed
  have c: "parseModelQuestion (Str (js ''What is a REST API? Also, explain GraphQL differences?''))
           = Inr (Some (js ''What is a REST API?''))"
    by (simp add: ev)
  from a b c show ?thesis by blast
qed

theorem first_question_truncation_witness:
  "jsonPath (trim (js ''Tell me ? ok'')) = None
   \<and> normalizeLine (pickCandidateLine (splitLines (cleanText (trim (js ''Tell me ? ok''))))) = js ''Tell me ? ok''
   \<and> truncateAtQuestionMark (js ''Tell me ? ok'') = Inr (js ''Tell me?'')
   \<and> parseModelQuestion (Str (js ''Tell me ? ok'')) = Inr (Some (js ''Tell me?''))
   \<and> jsonPath (trim (js ''?abc'')) = None
   \<and> truncateAtQuestionMark (js ''?abc'') = Inr (js ''?abc'')
   \<and> parseModelQuestion (Str (js ''?abc'')) = Inr (Some (js ''?abc'' @ [qmark]))"
proof -
  have j: "jsonPath (trim (js ''Tell me ? ok'')) = None" by (simp add: ev)
  have n: "js ''Tell me ? ok'' = normalizeLine (pickCandidateLine (splitLines (cleanText (trim (js ''Tell me ? ok'')))))"
    by (simp add: ev)
  have t: "truncateAtQuestionMark (js ''Tell me ? ok'') = Inr (js ''Tell me?'')" by (simp add: ev)
  have i: "includesChar (js ''Tell me ? ok'') qmark \<and> trim (takeWhile (\<lambda>x. x \<noteq> qmark) (js ''Tell me ? ok'')) \<noteq> []"
    by (simp add: ev)
  have j2: "jsonPath (trim (js ''?abc'')) = None" by (simp add: ev)
  have n2: "js ''?abc'' = normalizeLine (pickCandidateLine (splitLines (cleanText (trim (js ''?abc'')))))"
    by (simp add: ev)
  have t2: "truncateAtQuestionMark (js ''?abc'') = Inr (js ''?abc'')" by (simp add: ev)
  have i2: "js ''?abc'' \<noteq> [] \<and> \<not> endsWith (js ''?abc'') qmark" by (simp add: ev)
  from first_question_truncation[OF j n t] i have "parseModelQuestion (Str (js ''Tell me ? ok'')) = Inr (Some (js ''Tell me?''))"
    by blast
  moreover from first_question_truncation[OF j2 n2 t2] i2
  have "parseModelQuestion (Str (js ''?abc'')) = Inr (Some (js ''?abc'' @ [qmark]))"
    by blast
  ultimately show ?thesis using j n[symmetric] t j2 t2 by simp
qed

section \<open>The JSON short-circuit\<close>

lemma jsonPath_question:
  assumes "braceSpan raw = Some m" "JSON_parse m = Inr (JObject ms)"
    "lookupLast (js ''question'') ms = Some (JString q)" "trim q \<noteq> []"
  shows "jsonPath (trim raw) = Some (trim q)"
  using assms
  by (simp add: jsonPath_def tryJson_def match0_jsonObjectRegex braceSpan_trim)

text \<open>
  Claim C2: when the text from the first \<open>{\<close> to the last \<open>}\<close> of the input parses as a
  JSON object whose field \<open>question\<close> is a string with non-empty trimmed content,
  \<open>parseModelQuestion\<close> returns that trimmed content, whatever surrounds the object and
  whatever the fallback steps would have chosen; in particular
  \<open>{"question":"Describe how a hash table works?"}\<close> gives
  \<open>Describe how a hash table works?\<close>.
\<close>

theorem json_short_circuit:
  \<open>(\<forall>raw m ms q.
      braceSpan raw = Some m \<and> JSON_parse m = Inr (JObject ms)
      \<and> lookupLast (js ''question'') ms = Some (JString q) \<and> trim q \<noteq> []
      \<longrightarrow> parseModelQuestion (Str raw) = Inr (Some (trim q)))
   \<and> parseModelQuestion (Str (js ''{"question":"Describe how a hash table works?"}''))
       = Inr (Some (js ''Describe how a hash table works?''))\<close>
proof -
  have "parseModelQuestion (Str raw) = Inr (Some (trim q))"
    if "braceSpan raw = Some m" "JSON_parse m = Inr (JObject ms)"
      "lookupLast (js ''question'') ms = Some (JString q)" "trim q \<noteq> []" for raw m ms q
    using jsonPath_question[OF that] by (simp add: parseModelQuestion_def)
  moreover have \<open>parseModelQuestion (Str (js ''{"question":"Describe how a hash table works?"}''))
       = Inr (Some (js ''Describe how a hash table works?''))\<close>
    by (simp add: ev)
  ultimately show ?thesis by blast
qed

theorem json_short_circuit_witness:
  \<open>braceSpan (js ''Sure? {"question":" Why so? "} ok'') = Some (js ''{"question":" Why so? "}'')
   \<and> JSON_parse (js ''{"question":" Why so? "}'') = Inr (JObject [(js ''question'', JString (js '' Why so? ''))])
   \<and> parseModelQuestion (Str (js ''Sure? {"question":" Why so? "} ok'')) = Inr (Some (js ''Why so?''))\<close>
proof -
  have b: \<open>braceSpan (js ''Sure? {"question":" Why so? "} ok'') = Some (js ''{"question":" Why so? "}'')\<close>
    by (simp add: braceSpan_def js_def)
  have p: \<open>JSON_parse (js ''{"question":" Why so? "}'') = Inr (JObject [(js ''question'', JString (js '' Why so? ''))])\<close>
    by (simp add: ev)
  have l: "lookupLast (js ''question'') [(js ''question'', JString (js '' Why so? ''))] = Some (JString (js '' Why so? ''))"
    by (simp add: ev)
  have t: "trim (js '' Why so? '') = js ''Why so?''" by (simp add: ev)
  have ne: "trim (js '' Why so? '') \<noteq> []" by (simp add: ev)
  have \<open>parseModelQuestion (Str (js ''Sure? {"question":" Why so? "} ok''))
      = Inr (Some (trim (js '' Why so? '')))\<close>
    by (rule json_short_circuit[THEN conjunct1, rule_format, OF conjI[OF b conjI[OF p conjI[OF l ne]]]])
  with b p t show ?thesis by simp
qed

text \<open>
  Claim C9 says that \<open>generateQuestion\<close> returns the trimmed \<open>question\<close> field whenever
  the whole response does not parse and the text from the first \<open>{\<close> to the last \<open>}\<close>
  parses as an object whose field \<open>question\<close> is a non-empty string. The source asks
  more: \<open>parsed.question.trim().length > 0\<close>. On \<open>Sure: {"question":" "}\<close> the field is
  the non-empty string of one space, its trimmed content is empty, and the function goes
  on to the fallback steps: the result is the whole line with a \<open>?\<close> appended.
\<close>

theorem generateQuestion_greedy_json_verbatim_counterexample:
  \<open>JSON_parse (trim (js ''Sure: {"question":" "}'')) = Inl SyntaxError
   \<and> braceSpan (js ''Sure: {"question":" "}'') = Some (js ''{"question":" "}'')
   \<and> JSON_parse (js ''{"question":" "}'') = Inr (JObject [(js ''question'', JString (js '' ''))])
   \<and> lookupLast (js ''question'') [(js ''question'', JString (js '' ''))] = Some (JString (js '' ''))
   \<and> js '' '' \<noteq> []
   \<and> trim (js '' '') = []
   \<and> generateQuestion (Inr (Str (js ''Sure: {"question":" "}''))) = js ''Sure: {"question":" "}?''
   \<and> generateQuestion (Inr (Str (js ''Sure: {"question":" "}''))) \<noteq> trim (js '' '')\<close>
proof -
  have w: \<open>JSON_parse (trim (js ''Sure: {"question":" "}'')) = Inl SyntaxError\<close>
    by (simp add: ev)
  have b: \<open>braceSpan (js ''Sure: {"question":" "}'') = Some (js ''{"question":" "}'')\<close>
    by (simp add: braceSpan_def js_def)
  have p: \<open>JSON_parse (js ''{"question":" "}'') = Inr (JObject [(js ''question'', JString (js '' ''))])\<close>
    by (simp add: ev)
  have l: "lookupLast (js ''question'') [(js ''question'', JString (js '' ''))] = Some (JString (js '' ''))"
    by (simp add: ev)
  have t: "js '' '' \<noteq> []" "trim (js '' '') = []"
    by (simp_all add: ev)
  have g: \<open>generateQuestion (Inr (Str (js ''Sure: {"question":" "}''))) = js ''Sure: {"question":" "}?''\<close>
    by (simp add: evg)
  have n: \<open>js ''Sure: {"question":" "}?'' \<noteq> trim (js '' '')\<close>
    by (simp add: ev)
  from w b p l t g n show ?thesis by simp
qed

text \<open>
  Claim C9 as amended: in \<open>generateQuestion\<close>, when \<open>JSON.parse\<close> throws on the whole
  (trimmed) response but the text from the first \<open>{\<close> to the last \<open>}\<close> parses as an object
  whose field \<open>question\<close> is a string with non-empty trimmed content, the function returns
  that content trimmed and otherwise unchanged: no cut at the first \<open>?\<close>, no cut at a
  connector, no \<open>?\<close> appended. Such a result can hold two \<open>?\<close>, and it can lack a
  trailing \<open>?\<close>.
\<close>

theorem generateQuestion_greedy_json_verbatim:
  \<open>(\<forall>raw e m ms q.
      JSON_parse (trim raw) = Inl e \<and> braceSpan raw = Some m \<and> JSON_parse m = Inr (JObject ms)
      \<and> lookupLast (js ''question'') ms = Some (JString q) \<and> trim q \<noteq> []
      \<longrightarrow> generateQuestion (Inr (Str raw)) = trim q)
   \<and> generateQuestion (Inr (Str (js ''Sure: {"question":"Why? Why not?"}''))) = js ''Why? Why not?''
   \<and> count_list (js ''Why? Why not?'') qmark = 2
   \<and> generateQuestion (Inr (Str (js ''Sure: {"question":"Tell me more"}''))) = js ''Tell me more''
   \<and> \<not> endsWith (js ''Tell me more'') qmark\<close>
proof -
  have "generateQuestion (Inr (Str raw)) = trim q"
    if "JSON_parse (trim raw) = Inl e" "braceSpan raw = Some m" "JSON_parse m = Inr (JObject ms)"
      "lookupLast (js ''question'') ms = Some (JString q)" "trim q \<noteq> []" for raw e m ms q
  proof -
    from that(1) have "wholeJsonPath (trim raw) = None"
      by (simp add: wholeJsonPath_def tryWholeJson_def)
    with jsonPath_question[OF that(2-5)] show ?thesis
      by (simp add: generateQuestion_def extractQuestion_def)
  qed
  moreover have \<open>generateQuestion (Inr (Str (js ''Sure: {"question":"Why? Why not?"}''))) = js ''Why? Why not?''\<close>
    by (simp add: evg)
  moreover have "count_list (js ''Why? Why not?'') qmark = 2"
    by (simp add: ev)
  moreover have \<open>generateQuestion (Inr (Str (js ''Sure: {"question":"Tell me more"}''))) = js ''Tell me more''\<close>
    by (simp add: evg)
  moreover have "\<not> endsWith (js ''Tell me more'') qmark"
    by (simp add: ev)
  ultimately show ?thesis by blast
qed

theorem generateQuestion_greedy_json_verbatim_witness:
  \<open>JSON_parse (trim (js ''Sure: {"question":"Why? Why not?"}'')) = Inl SyntaxError
   \<and> braceSpan (js ''Sure: {"question":"Why? Why not?"}'') = Some (js ''{"question":"Why? Why not?"}'')
   \<and> JSON_parse (js ''{"question":"Why? Why not?"}'') = Inr (JObject [(js ''question'', JString (js ''Why? Why not?''))])
   \<and> generateQuestion (Inr (Str (js ''Sure: {"question":"Why? Why not?"}''))) = trim (js ''Why? Why not?'')\<close>
proof -
  have w: \<open>JSON_parse (trim (js ''Sure: {"question":"Why? Why not?"}'')) = Inl SyntaxError\<close>
    by (simp add: ev)
  have b: \<open>braceSpan (js ''Sure: {"question":"Why? Why not?"}'') = Some (js ''{"question":"Why? Why not?"}'')\<close>
    by (simp add: braceSpan_def js_def)
  have p: \<open>JSON_parse (js ''{"question":"Why? Why not?"}'') = Inr (JObject [(js ''question'', JString (js ''Why? Why not?''))])\<close>
    by (simp add: ev)
  have l: "lookupLast (js ''question'') [(js ''question'', JString (js ''Why? Why not?''))] = Some (JString (js ''Why? Why not?''))"
    by (simp add: ev)
  have ne: "trim (js ''Why? Why not?'') \<noteq> []" by (simp add: ev)
  have \<open>generateQuestion (Inr (Str (js ''Sure: {"question":"Why? Why not?"}''))) = trim (js ''Why? Why not?'')\<close>
    by (rule generateQuestion_greedy_json_verbatim[THEN conjunct1, rule_format,
          OF conjI[OF w conjI[OF b conjI[OF p conjI[OF l ne]]]]])
  with w b p show ?thesis by simp
qed

section \<open>The two copies of the extraction\<close>

text \<open>
  Claim C7 says that \<open>generateQuestion\<close> and \<open>parseModelQuestion\<close> extract the same
  question from every response. They do not: the service strips a number that no \<open>.\<close>
  or \<open>)\<close> follows, and it passes a question found by parsing the whole response through
  \<open>keepOnlyFirstQuestion\<close>, which the script does not have.
\<close>

theorem copies_differ_counterexample:
  \<open>generateQuestion (Inr (Str (js ''1 What is a heap''))) = js ''What is a heap?''
   \<and> parseModelQuestion (Str (js ''1 What is a heap'')) = Inr (Some (js ''1 What is a heap?''))
   \<and> generateQuestion (Inr (Str (js ''{"question":"Why? Why not"}''))) = js ''Why?''
   \<and> parseModelQuestion (Str (js ''{"question":"Why? Why not"}'')) = Inr (Some (js ''Why? Why not''))\<close>
  by (simp add: evg)

lemma sample1: "sameQuestion (samples ! 0)"
  by (simp add: sameQuestion_def samples_def evg)
lemma sample2: "sameQuestion (samples ! 1)"
  by (simp add: sameQuestion_def samples_def evg)
lemma sample3: "sameQuestion (samples ! 2)"
  by (simp add: sameQuestion_def samples_def evg)
lemma sample4: "sameQuestion (samples ! 3)"
  by (simp add: sameQuestion_def samples_def evg)
lemma sample5: "sameQuestion (samples ! 4)"
  by (simp add: sameQuestion_def samples_def evg)
lemma sample6: "sameQuestion (samples ! 5)"
  by (simp add: sameQuestion_def samples_def evg)

lemma samples_agree: "list_all sameQuestion samples"
proof -
  have "samples = [samples ! 0, samples ! 1, samples ! 2, samples ! 3, samples ! 4, samples ! 5]"
    by (simp add: samples_def)
  then have "list_all sameQuestion samples
      = list_all sameQuestion [samples ! 0, samples ! 1, samples ! 2, samples ! 3, samples ! 4, samples ! 5]"
    by simp
  with sample1 sample2 sample3 sample4 sample5 sample6 show ?thesis by simp
qed

lemma blank_whole: "wholeJsonPath [] = None"
  by (simp add: evg)

lemma blank_json: "jsonPath [] = None"
  by (simp add: ev)

lemma blank_parse: "fallbackQuestion [] = Inr []"
  by (simp add: ev)

lemma blank_generate: "keepOnlyFirstQuestion
     (case orElse (pickCandidateLine (splitLines (looseCleanText []))) (Some []) of
        None \<Rightarrow> [] | Some l \<Rightarrow> l) = Inr []"
  by (simp add: evg)

text \<open>
  Claim C7 as amended: the two copies agree whenever parsing the whole trimmed response
  yields no question and the brace-delimited JSON path yields one (both return it), on
  every response that is blank after trimming (both fail), and on the six sample inputs
  of the script.
\<close>

theorem copies_agree_where_shared:
  "(\<forall>raw q. wholeJsonPath (trim raw) = None \<and> jsonPath (trim raw) = Some q
      \<longrightarrow> sameQuestion raw \<and> parseModelQuestion (Str raw) = Inr (Some q))
   \<and> (\<forall>raw. trim raw = [] \<longrightarrow> sameQuestion raw \<and> parseModelQuestion (Str raw) = Inr None)
   \<and> list_all sameQuestion samples"
proof -
  have a: "sameQuestion raw \<and> parseModelQuestion (Str raw) = Inr (Some q)"
    if "wholeJsonPath (trim raw) = None" "jsonPath (trim raw) = Some q" for raw q
    using that
    by (simp add: sameQuestion_def parseModelQuestion_def generateQuestion_def extractQuestion_def)
  have b: "sameQuestion raw \<and> parseModelQuestion (Str raw) = Inr None" if "trim raw = []" for raw
    using that blank_whole blank_json blank_parse blank_generate
    by (simp add: sameQuestion_def parseModelQuestion_def generateQuestion_def extractQuestion_def
        withQuestionMark_def)
  from a b samples_agree show ?thesis by blast
qed

theorem copies_agree_where_shared_witness:
  \<open>wholeJsonPath (trim (js ''Sure: {"question":"Why? Why not?"}'')) = None
   \<and> jsonPath (trim (js ''Sure: {"question":"Why? Why not?"}'')) = Some (js ''Why? Why not?'')
   \<and> sameQuestion (js ''Sure: {"question":"Why? Why not?"}'')
   \<and> parseModelQuestion (Str (js ''Sure: {"question":"Why? Why not?"}'')) = Inr (Some (js ''Why? Why not?''))
   \<and> trim (js ''  '') = []
   \<and> sameQuestion (js ''  '') \<and> parseModelQuestion (Str (js ''  '')) = Inr None\<close>
proof -
  have w: \<open>wholeJsonPath (trim (js ''Sure: {"question":"Why? Why not?"}'')) = None\<close>
    by (simp add: evg)
  have j: \<open>jsonPath (trim (js ''Sure: {"question":"Why? Why not?"}'')) = Some (js ''Why? Why not?'')\<close>
    by (simp add: ev)
  have t: "trim (js ''  '') = []" by (simp add: ev)
  note g = copies_agree_where_shared[THEN conjunct1, rule_format, OF conjI[OF w j]]
  note h = copies_agree_where_shared[THEN conjunct2, THEN conjunct1, rule_format, OF t]
  from w j t g h show ?thesis by simp
qed

section \<open>The priority of the candidate lines\<close>

lemma find_map_comp: "find P (map f xs) = map_option f (find (\<lambda>x. P (f x)) xs)"
  by (induction xs) auto

lemma containsWord_nonempty: "containsWord w [] \<Longrightarrow> w = []"
  by (auto simp: containsWord_def wholeWordAt_def prefixCI_def)

lemma hasQuestionWord_nonempty: "hasQuestionWord l \<Longrightarrow> l \<noteq> []"
proof
  assume h: "hasQuestionWord l" and "l = []"
  then obtain w where "w \<in> set questionWords" "containsWord w []"
    by (auto simp: hasQuestionWord_def)
  with containsWord_nonempty wordy_questionWords show False
    by (auto simp: wordy_def)
qed

text \<open>
  Claim C6 says that the candidate is one of the lines, chosen in a fixed priority. In
  the third step the source does not keep the line it finds but that line without its
  numbering prefix: from the lines \<open>2. 3. abcdefg\<close> it takes \<open>3. abcdefg\<close>, which is
  none of the lines, and the final result on \<open>1. 2. 3. abcdefg\<close> is \<open>abcdefg?\<close>.
\<close>

theorem pickCandidateLine_priority_counterexample:
  "splitLines (cleanText (trim (js ''1. 2. 3. abcdefg''))) = [js ''2. 3. abcdefg'']
   \<and> pickCandidateLine [js ''2. 3. abcdefg''] = Some (js ''3. abcdefg'')
   \<and> js ''3. abcdefg'' \<notin> set [js ''2. 3. abcdefg'']
   \<and> parseModelQuestion (Str (js ''1. 2. 3. abcdefg'')) = Inr (Some (js ''abcdefg?''))"
  by (simp add: ev)

text \<open>
  Claim C6 as amended: the candidate is the first line that contains a \<open>?\<close>; else the
  first line that contains one of the twelve question words as a whole word, whatever
  the case of its letters; else, of the first line whose content after stripping a
  leading digits-plus-\<open>.\<close>-or-\<open>)\<close> prefix (with the white space after it) is longer than
  5, that stripped content; else the first line; else the empty string.
\<close>

theorem pickCandidateLine_priority:
  "pickCandidateLine lines =
     Some (case find (\<lambda>l. qmark \<in> set l) lines of
             Some l \<Rightarrow> l
           | None \<Rightarrow>
               (case find hasQuestionWord lines of
                  Some l \<Rightarrow> l
                | None \<Rightarrow>
                    (case find (\<lambda>l. length (stripNumberPrefix l) > 5) lines of
                       Some l \<Rightarrow> stripNumberPrefix l
                     | None \<Rightarrow> (case lines of [] \<Rightarrow> [] | l # _ \<Rightarrow> l))))"
proof -
  have t: "(\<lambda>l. test questionWordRegex l) = hasQuestionWord"
    by (rule ext) (rule test_questionWordRegex)
  have i: "(\<lambda>l. includesChar l qmark) = (\<lambda>l. qmark \<in> set l)"
    by (rule ext) (simp add: includesChar_def)
  have n: "find (\<lambda>l. l \<noteq> [] \<and> length l > 5) (map (replace numberPrefixRegex []) lines)
      = map_option stripNumberPrefix (find (\<lambda>l. length (stripNumberPrefix l) > 5) lines)"
  proof -
    have "(\<lambda>l. replace numberPrefixRegex [] l) = stripNumberPrefix"
      by (rule ext) (rule replace_numberPrefixRegex)
    moreover have "(\<lambda>l. stripNumberPrefix l \<noteq> [] \<and> length (stripNumberPrefix l) > 5)
        = (\<lambda>l. length (stripNumberPrefix l) > 5)"
      by (rule ext) auto
    ultimately show ?thesis by (simp add: find_map_comp)
  qed
  show ?thesis
  proof (cases "find (\<lambda>l. qmark \<in> set l) lines")
    case (Some l)
    then have "l \<noteq> []" by (auto simp: find_Some_iff)
    with Some show ?thesis by (simp add: pickCandidateLine_def i falsy_def Let_def)
  next
    case None
    note q = this
    show ?thesis
    proof (cases "find hasQuestionWord lines")
      case (Some l)
      then have "hasQuestionWord l" by (auto simp: find_Some_iff)
      then have "l \<noteq> []" by (rule hasQuestionWord_nonempty)
      with q Some show ?thesis by (simp add: pickCandidateLine_def i t falsy_def Let_def)
    next
      case None
      note w = this
      show ?thesis
      proof (cases "find (\<lambda>l. length (stripNumberPrefix l) > 5) lines")
        case (Some l)
        then have "length (stripNumberPrefix l) > 5" by (auto simp: find_Some_iff)
        then have "stripNumberPrefix l \<noteq> []" by auto
        with q w Some show ?thesis
          by (simp add: pickCandidateLine_def i t n falsy_def orElse_def Let_def)
      next
        case None
        have "orElse (index0 lines) (Some []) = Some (case lines of [] \<Rightarrow> [] | l # _ \<Rightarrow> l)"
          by (cases lines) (simp_all add: orElse_def falsy_def index0_def)
        moreover have "pickCandidateLine lines = orElse None (orElse (index0 lines) (Some []))"
          using q w None by (simp add: pickCandidateLine_def i t n falsy_def Let_def)
        ultimately show ?thesis using q w None by (simp add: orElse_def falsy_def)
      qed
    qed
  qed
qed

theorem pickCandidateLine_priority_witness:
  "pickCandidateLine [js ''Intro'', js ''7) Tell me WHY now'', js ''ok?''] = Some (js ''ok?'')
   \<and> pickCandidateLine [js ''Intro'', js ''7) Tell me WHY now''] = Some (js ''7) Tell me WHY now'')
   \<and> pickCandidateLine [js ''Intro'', js ''7) Tell me now''] = Some (js ''Tell me now'')
   \<and> pickCandidateLine [js ''Intro'', js ''7) Tell''] = Some (js ''Intro'')
   \<and> pickCandidateLine [] = Some []"
proof -
  have ev2: "hasQuestionWord (js ''Intro'') = False" "hasQuestionWord (js ''7) Tell me WHY now'') = True"
    "hasQuestionWord (js ''7) Tell me now'') = False" "hasQuestionWord (js ''7) Tell'') = False"
    "hasQuestionWord (js ''ok?'') = False"
    by (simp_all add: hasQuestionWord_def containsWord_def wholeWordAt_def prefixCI_def ev)
  have ev3: "stripNumberPrefix (js ''Intro'') = js ''Intro''"
    "stripNumberPrefix (js ''7) Tell me now'') = js ''Tell me now''"
    "stripNumberPrefix (js ''7) Tell'') = js ''Tell''"
    by (simp_all add: stripNumberPrefix_def ev)
  show ?thesis
    unfolding pickCandidateLine_priority
    by (simp add: ev2 ev3) (simp add: js_def qmark_def)
qed

section \<open>The steps of keepOnlyFirstQuestion\<close>

text \<open>
  Claim C8: for every input, \<open>keepOnlyFirstQuestion\<close> collapses the runs of white space
  to single spaces, strips a leading numbering and a leading \<open>Question\<close>, \<open>Q\<close> or \<open>Ask\<close>
  label, and discards the text from the first connector (\<open>Also\<close>, \<open>Additionally\<close>,
  \<open>And then\<close>, \<open>Next\<close>, \<open>Follow up\<close>, \<open>Follow-up\<close>, \<open>As well as\<close>; whole word, any case)
  onward, trimming after each step. When what remains has no \<open>?\<close> it is cut just after
  its first \<open>.\<close> or \<open>!\<close>; when it has one, it is cut at its first \<open>?\<close> as in
  \<open>parseModelQuestion\<close>.
\<close>

theorem keepOnlyFirstQuestion_steps:
  "keepOnlyFirstQuestion text =
     Inr (let candidate =
                trim (cutAtConnector (trim (stripLabel (stripNumbering (trim (collapseSpaces text))))))
          in if qmark \<in> set candidate
             then (if trim (takeWhile (\<lambda>c. c \<noteq> qmark) candidate) \<noteq> []
                   then trim (takeWhile (\<lambda>c. c \<noteq> qmark) candidate) @ [qmark]
                   else candidate)
             else trim (cutAfterSentenceEnd candidate))"
proof (cases "text = []")
  case True
  have "stripLabel [] = []" by (simp add: stripLabel_def labels_def prefixCI_def js_def)
  with True show ?thesis
    by (simp add: keepOnlyFirstQuestion_def stripNumbering_def cutAtConnector_def
        cutAfterSentenceEnd_def qmark_def)
next
  case False
  define candidate where
    "candidate = trim (cutAtConnector (trim (stripLabel (stripNumbering (trim (collapseSpaces text))))))"
  have t: "trim candidate = candidate" by (simp add: candidate_def)
  have cut: "(let sentenceEnd = search sentenceEndRegex candidate
        in if sentenceEnd \<noteq> - 1 then trim (take (nat (sentenceEnd + 1)) candidate) else candidate)
      = trim (cutAfterSentenceEnd candidate)"
  proof (cases "\<exists>c \<in> set candidate. c = 46 \<or> c = 33")
    case True
    then show ?thesis by (simp only: sentence_cut if_True)
  next
    case False
    then have "dropWhile (\<lambda>c. \<not> (c = 46 \<or> c = 33)) candidate = []"
      by (auto simp: dropWhile_eq_Nil_conv)
    then have "cutAfterSentenceEnd candidate = candidate"
      unfolding cutAfterSentenceEnd_def by (simp only: list.case)
    with False t show ?thesis by (simp only: sentence_cut if_False)
  qed
  have "keepOnlyFirstQuestion text =
      (if includesChar candidate qmark
       then (case firstPiece (splitChar qmark candidate) of
               Inl e \<Rightarrow> Inl e
             | Inr firstQ \<Rightarrow> Inr (if firstQ \<noteq> [] then firstQ @ [qmark] else candidate))
       else
         let sentenceEnd = search sentenceEndRegex candidate
         in Inr (if sentenceEnd \<noteq> - 1 then trim (take (nat (sentenceEnd + 1)) candidate)
                 else candidate))"
    using False unfolding candidate_def
    by (simp add: keepOnlyFirstQuestion_def replaceAll_spacesRegex replace_looseNumberPrefixRegex
        replace_dashLabelRegex firstPiece_connectorRegex Let_def)
  also have "\<dots> =
      Inr (if qmark \<in> set candidate
           then (if trim (takeWhile (\<lambda>c. c \<noteq> qmark) candidate) \<noteq> []
                 then trim (takeWhile (\<lambda>c. c \<noteq> qmark) candidate) @ [qmark]
                 else candidate)
           else trim (cutAfterSentenceEnd candidate))"
    using cut by (simp add: firstPiece_splitChar includesChar_def Let_def)
  finally show ?thesis unfolding candidate_def Let_def .
qed

theorem keepOnlyFirstQuestion_steps_witness:
  "collapseSpaces (js ''2) Q: Tell  me. Also x'') = js ''2) Q: Tell me. Also x''
   \<and> stripNumbering (js ''2) Q: Tell me. Also x'') = js ''Q: Tell me. Also x''
   \<and> stripLabel (js ''Q: Tell me. Also x'') = js ''Tell me. Also x''
   \<and> cutAtConnector (js ''Tell me. Also x'') = js ''Tell me. ''
   \<and> cutAfterSentenceEnd (js ''Tell me.'') = js ''Tell me.''
   \<and> keepOnlyFirstQuestion (js ''2) Q: Tell  me. Also x'') = Inr (js ''Tell me.'')"
proof -
  have s1: "collapseSpaces (js ''2) Q: Tell  me. Also x'') = js ''2) Q: Tell me. Also x''"
    by (simp add: js_def isSpace_def)
  have t1: "trim (js ''2) Q: Tell me. Also x'') = js ''2) Q: Tell me. Also x''"
    by (simp add: js_def isSpace_def trim_def)
  have s2: "stripNumbering (js ''2) Q: Tell me. Also x'') = js ''Q: Tell me. Also x''"
    by (simp add: stripNumbering_def dropOne_def js_def isSpace_def isDigit_def)
  have s3: "stripLabel (js ''Q: Tell me. Also x'') = js ''Tell me. Also x''"
    by (simp add: stripLabel_def labels_def prefixCI_def asciiUpper_def js_def isSpace_def)
  have t3: "trim (js ''Tell me. Also x'') = js ''Tell me. Also x''"
    by (simp add: js_def isSpace_def trim_def)
  have s4: "cutAtConnector (js ''Tell me. Also x'') = js ''Tell me. ''"
    by (simp add: cutAtConnector_def connectors_def wholeWordAt_def prefixCI_def asciiUpper_def
        js_def isWord_def isDigit_def)
  have t4: "trim (js ''Tell me. '') = js ''Tell me.''"
    by (simp add: js_def isSpace_def trim_def)
  have s5: "cutAfterSentenceEnd (js ''Tell me.'') = js ''Tell me.''"
    by (simp add: cutAfterSentenceEnd_def js_def)
  have t5: "trim (js ''Tell me.'') = js ''Tell me.''" "qmark \<notin> set (js ''Tell me.'')"
    by (simp_all add: js_def isSpace_def trim_def qmark_def)
  have "keepOnlyFirstQuestion (js ''2) Q: Tell  me. Also x'') = Inr (js ''Tell me.'')"
    unfolding keepOnlyFirstQuestion_steps s1 t1 s2 s3 t3 s4 t4 Let_def using s5 t5 by simp
  with s1 s2 s3 s4 s5 show ?thesis by simp
qed

end
